theory Spec2Isabelle
  imports Complex_Main "HOL-Library.AList" "HOL-Library.Monad_Syntax"
begin

section \<open>Parsed log records\<close>

text \<open>
  Both analyzers (\<^verbatim>\<open>analyze-session.py\<close> and \<^verbatim>\<open>analyze-hooks.py\<close>) read a
  JSON-lines file with \<^verbatim>\<open>json.loads\<close> and then walk the parsed values with
  \<^verbatim>\<open>dict.get\<close>, \<^verbatim>\<open>isinstance\<close> and truth tests. A parsed value is one of
  Python's \<^verbatim>\<open>None\<close>, \<^verbatim>\<open>bool\<close>, \<^verbatim>\<open>int\<close>, \<^verbatim>\<open>str\<close>, \<^verbatim>\<open>list\<close>
  or \<^verbatim>\<open>dict\<close>. Number literals with a fraction or an exponent (Python floats) are not
  part of this model. A \<^verbatim>\<open>dict\<close> is an association list read with \<open>map_of\<close>.
  Strings are lists of 8-bit characters; the model covers ASCII text.

  An uncaught Python exception (\<^verbatim>\<open>AttributeError\<close> from \<^verbatim>\<open>.get\<close> or
  \<^verbatim>\<open>.lower\<close> on a value without that method, \<^verbatim>\<open>TypeError\<close> from comparing or
  hashing a value of the wrong type) aborts \<^verbatim>\<open>parse_session\<close>; the model returns
  \<open>None\<close> there and \<open>Some\<close> of the result otherwise.
\<close>

datatype json =
    JNull
  | JBool bool
  | JInt int
  | JStr string
  | JArr "json list"
  | JObj "(string \<times> json) list"

text \<open>\<^verbatim>\<open>d.get(k, default)\<close> on a value known to be a dict.\<close>

definition get :: "(string \<times> json) list \<Rightarrow> string \<Rightarrow> json \<Rightarrow> json" where
  "get kvs k d = (case map_of kvs k of Some v \<Rightarrow> v | None \<Rightarrow> d)"

text \<open>\<^verbatim>\<open>x.get(k, default)\<close> on any value: only a dict has the method.\<close>

fun dict_get :: "json \<Rightarrow> string \<Rightarrow> json \<Rightarrow> json option" where
  "dict_get (JObj kvs) k d = Some (get kvs k d)"
| "dict_get _ k d = None"

text \<open>Python's truth test, as in \<^verbatim>\<open>if usage:\<close>.\<close>

fun truthy :: "json \<Rightarrow> bool" where
  "truthy JNull = False"
| "truthy (JBool b) = b"
| "truthy (JInt n) = (n \<noteq> 0)"
| "truthy (JStr s) = (s \<noteq> [])"
| "truthy (JArr xs) = (xs \<noteq> [])"
| "truthy (JObj kvs) = (kvs \<noteq> [])"

text \<open>
  Keys of a Python dict or set. \<^verbatim>\<open>True\<close> and \<^verbatim>\<open>1\<close> (and \<^verbatim>\<open>False\<close> and
  \<^verbatim>\<open>0\<close>) are equal and hash alike, so they are one key; a list or a dict is unhashable
  and using it as a key raises \<^verbatim>\<open>TypeError\<close>.
\<close>

datatype key = KNone | KInt int | KStr string

fun py_hash :: "json \<Rightarrow> key option" where
  "py_hash JNull = Some KNone"
| "py_hash (JBool b) = Some (KInt (if b then 1 else 0))"
| "py_hash (JInt n) = Some (KInt n)"
| "py_hash (JStr s) = Some (KStr s)"
| "py_hash (JArr xs) = None"
| "py_hash (JObj kvs) = None"

text \<open>
  The number a value stands for in \<^verbatim>\<open>val > n\<close>, \<^verbatim>\<open>max(n, val)\<close> and
  \<^verbatim>\<open>val - n\<close>: an int, or a bool read as 0 or 1; anything else raises
  \<^verbatim>\<open>TypeError\<close>.
\<close>

fun as_int :: "json \<Rightarrow> int option" where
  "as_int (JInt n) = Some n"
| "as_int (JBool b) = Some (if b then 1 else 0)"
| "as_int _ = None"

text \<open>\<^verbatim>\<open>needle in haystack\<close> on strings: a contiguous occurrence.\<close>

fun is_prefix :: "string \<Rightarrow> string \<Rightarrow> bool" where
  "is_prefix [] ys = True"
| "is_prefix (x # xs) [] = False"
| "is_prefix (x # xs) (y # ys) = (x = y \<and> is_prefix xs ys)"

fun str_in :: "string \<Rightarrow> string \<Rightarrow> bool" where
  "str_in needle [] = (needle = [])"
| "str_in needle (c # cs) = (is_prefix needle (c # cs) \<or> str_in needle cs)"

text \<open>\<^verbatim>\<open>str.lower()\<close> on ASCII text: the letters A to Z move to a to z.\<close>

definition lower_char :: "char \<Rightarrow> char" where
  "lower_char c =
     (let n = of_char c :: nat in if 65 \<le> n \<and> n \<le> 90 then char_of (n + 32) else c)"

definition lower :: "string \<Rightarrow> string" where
  "lower s = map lower_char s"

section \<open>Classifier (analyze-hooks.py, parse\_session, categorisation loop)\<close>

text \<open>\<^verbatim>\<open>is_hook = 'haiku' in model.lower()\<close>\<close>

definition is_hook :: "string \<Rightarrow> bool" where
  "is_hook model = str_in ''haiku'' (lower model)"

datatype category = Lightweight | Primary

definition classify :: "string \<Rightarrow> category" where
  "classify model = (if is_hook model then Lightweight else Primary)"


section \<open>Cost calculators\<close>

text \<open>
  Both \<^verbatim>\<open>calculate_cost\<close> functions compute with Python floats. The arithmetic they
  use is a parameter of the model: the float a decimal literal denotes, \<^verbatim>\<open>int * float\<close>,
  \<^verbatim>\<open>float / int\<close>, \<^verbatim>\<open>float + float\<close> and \<^verbatim>\<open>int + float\<close>. The instance
  \<open>exact\<close> computes without rounding, over the real numbers.
\<close>

record 'f arith =
  fl_lit :: "real \<Rightarrow> 'f"
  fl_mul :: "int \<Rightarrow> 'f \<Rightarrow> 'f"
  fl_div :: "'f \<Rightarrow> int \<Rightarrow> 'f"
  fl_add :: "'f \<Rightarrow> 'f \<Rightarrow> 'f"
  fl_radd :: "int \<Rightarrow> 'f \<Rightarrow> 'f"

definition exact :: "real arith" where
  "exact = \<lparr> fl_lit = (\<lambda>q. q),
             fl_mul = (\<lambda>n x. of_int n * x),
             fl_div = (\<lambda>x n. x / of_int n),
             fl_add = (\<lambda>x y. x + y),
             fl_radd = (\<lambda>n x. of_int n + x) \<rparr>"

subsection \<open>analyze-hooks.py, calculate\_cost\<close>

text \<open>One row of the pricing table: the keys \<^verbatim>\<open>input\<close>, \<^verbatim>\<open>output\<close>,
  \<^verbatim>\<open>cache_read\<close> and \<^verbatim>\<open>cache_create\<close>, per million tokens.\<close>

record rates =
  rate_input :: real
  rate_output :: real
  rate_cache_read :: real
  rate_cache_create :: real

definition opus_rates :: rates where
  "opus_rates = \<lparr> rate_input = 15, rate_output = 75,
                   rate_cache_read = 15 / 10, rate_cache_create = 1875 / 100 \<rparr>"

definition sonnet_rates :: rates where
  "sonnet_rates = \<lparr> rate_input = 3, rate_output = 15,
                     rate_cache_read = 3 / 10, rate_cache_create = 375 / 100 \<rparr>"

definition haiku_rates :: rates where
  "haiku_rates = \<lparr> rate_input = 25 / 100, rate_output = 125 / 100,
                    rate_cache_read = 25 / 1000, rate_cache_create = 3125 / 10000 \<rparr>"

definition pricing :: "string \<Rightarrow> rates option" where
  "pricing = map_of [(''opus'', opus_rates), (''sonnet'', sonnet_rates), (''haiku'', haiku_rates)]"

text \<open>\<^verbatim>\<open>tokens.get(k, 0)\<close> on the dict of token counts.\<close>

definition tokens_get :: "(string \<Rightarrow> int option) \<Rightarrow> string \<Rightarrow> int" where
  "tokens_get tokens k = (case tokens k of Some n \<Rightarrow> n | None \<Rightarrow> 0)"

definition calculate_cost_h :: "'f arith \<Rightarrow> (string \<Rightarrow> int option) \<Rightarrow> string \<Rightarrow> 'f" where
  "calculate_cost_h A tokens model =
     (let p = (case pricing model of Some p \<Rightarrow> p | None \<Rightarrow> opus_rates);
          cost = fl_radd A 0
            (fl_div A (fl_mul A (tokens_get tokens ''input_tokens'') (fl_lit A (rate_input p))) 1000000);
          cost = fl_add A cost
            (fl_div A (fl_mul A (tokens_get tokens ''output_tokens'') (fl_lit A (rate_output p))) 1000000);
          cost = fl_add A cost
            (fl_div A (fl_mul A (tokens_get tokens ''cache_read'') (fl_lit A (rate_cache_read p))) 1000000);
          cost = fl_add A cost
            (fl_div A (fl_mul A (tokens_get tokens ''cache_creation'') (fl_lit A (rate_cache_create p))) 1000000)
      in cost)"

subsection \<open>analyze-session.py, calculate\_cost\<close>



section \<open>Reading the log (both analyzers)\<close>


section \<open>analyze-session.py, parse\_session\<close>

text \<open>
  The result dict. \<^verbatim>\<open>totals\<close> and each value of \<^verbatim>\<open>by_request\<close> are dicts from
  counter names to ints, modelled as functions (a key the code never writes reads 0, as
  \<^verbatim>\<open>thinking_tokens\<close> does). \<^verbatim>\<open>by_request\<close> is a \<^verbatim>\<open>defaultdict\<close> whose default
  is all zeros. \<^verbatim>\<open>session_id\<close> and \<^verbatim>\<open>file_path\<close> echo the path and
  \<^verbatim>\<open>messages\<close> stays empty; they are left out.
\<close>

record session_result =
  entry_count :: nat
  totals :: "string \<Rightarrow> int"
  by_request :: "(key \<times> (string \<Rightarrow> int)) list"
  user_prompts :: "string list"
  api_calls :: int
  tool_uses :: "json list"
  thinking_blocks :: int

definition init_result_s :: "nat \<Rightarrow> session_result" where
  "init_result_s n =
     \<lparr> entry_count = n, totals = (\<lambda>k. 0), by_request = [], user_prompts = [],
       api_calls = 0, tool_uses = [], thinking_blocks = 0 \<rparr>"

text \<open>
  The loop that builds \<^verbatim>\<open>uuid_map\<close>. \<^verbatim>\<open>'uuid' in entry\<close> is a key test on a
  dict, a membership test on a list, a substring test on a str, and raises on anything
  else; \<^verbatim>\<open>entry['uuid']\<close> then raises on a list or a str, and a dict's uuid must be
  hashable.
\<close>

fun build_uuid_map :: "json list \<Rightarrow> (key \<times> json) list \<Rightarrow> (key \<times> json) list option" where
  "build_uuid_map [] uuid_map = Some uuid_map"
| "build_uuid_map (entry # entries) uuid_map =
     (case entry of
        JObj kvs \<Rightarrow>
          (case map_of kvs ''uuid'' of
             Some u \<Rightarrow> do { k \<leftarrow> py_hash u;
                            build_uuid_map entries (AList.update k entry uuid_map) }
           | None \<Rightarrow> build_uuid_map entries uuid_map)
      | JArr xs \<Rightarrow> if JStr ''uuid'' \<in> set xs then None else build_uuid_map entries uuid_map
      | JStr s \<Rightarrow> if str_in ''uuid'' s then None else build_uuid_map entries uuid_map
      | _ \<Rightarrow> None)"

definition usage_keys :: "string list" where
  "usage_keys = [''input_tokens'', ''output_tokens'',
                 ''cache_creation_input_tokens'', ''cache_read_input_tokens'']"

text \<open>
  \<^verbatim>\<open>for key in [...]: val = usage.get(key, 0); if val > req_data[key]: ...\<close>
  on the pair of \<^verbatim>\<open>result['totals']\<close> and \<^verbatim>\<open>req_data\<close>.
\<close>

fun update_counters ::
  "json \<Rightarrow> string list \<Rightarrow> (string \<Rightarrow> int) \<times> (string \<Rightarrow> int) \<Rightarrow>
   ((string \<Rightarrow> int) \<times> (string \<Rightarrow> int)) option" where
  "update_counters usage [] (tot, req_data) = Some (tot, req_data)"
| "update_counters usage (key # keys) (tot, req_data) =
     do { val \<leftarrow> dict_get usage key (JInt 0);
          v \<leftarrow> as_int val;
          update_counters usage keys
            (if v > req_data key
             then (tot(key := tot key + (v - req_data key)), req_data(key := v))
             else (tot, req_data)) }"

text \<open>\<^verbatim>\<open>result['by_request'][request_id]\<close>: the stored dict, or the default.\<close>

definition req_data_of :: "(key \<times> (string \<Rightarrow> int)) list \<Rightarrow> key \<Rightarrow> (string \<Rightarrow> int)" where
  "req_data_of by_req k = (case map_of by_req k of Some d \<Rightarrow> d | None \<Rightarrow> (\<lambda>c. 0))"

fun track_item_s :: "json \<Rightarrow> session_result \<Rightarrow> session_result" where
  "track_item_s (JObj item) r =
     (let content_type = get item ''type'' JNull in
      if content_type = JStr ''thinking'' then r\<lparr>thinking_blocks := thinking_blocks r + 1\<rparr>
      else if content_type = JStr ''tool_use''
        then r\<lparr>tool_uses := tool_uses r @ [get item ''name'' (JStr ''unknown'')]\<rparr>
      else r)"
| "track_item_s _ r = r"

text \<open>\<^verbatim>\<open>if isinstance(content, list): for item in content: ...\<close>\<close>

fun track_content_s :: "json \<Rightarrow> session_result \<Rightarrow> session_result" where
  "track_content_s (JArr items) r = fold track_item_s items r"
| "track_content_s _ r = r"

definition track_user_s :: "json \<Rightarrow> session_result \<Rightarrow> session_result option" where
  "track_user_s entry r =
     do { msg \<leftarrow> dict_get entry ''message'' (JObj []);
          Some (case msg of
                  JObj m \<Rightarrow>
                    (case get m ''content'' (JStr '''') of
                       JStr content \<Rightarrow>
                         if content \<noteq> [] then r\<lparr>user_prompts := user_prompts r @ [take 100 content]\<rparr>
                         else r
                     | _ \<Rightarrow> r)
                | _ \<Rightarrow> r) }"

text \<open>
  The three blocks of the assistant branch, in source order: count unique API calls,
  extract usage, track content types.
\<close>

definition count_api_call ::
  "json \<Rightarrow> session_result \<times> key set \<Rightarrow> (session_result \<times> key set) option" where
  "count_api_call request_id st =
     (case st of (r, seen_request_ids) \<Rightarrow>
      if truthy request_id
      then do { k \<leftarrow> py_hash request_id;
                Some (if k \<notin> seen_request_ids
                      then (r\<lparr>api_calls := api_calls r + 1\<rparr>, insert k seen_request_ids)
                      else (r, seen_request_ids)) }
      else Some (r, seen_request_ids))"

definition extract_usage :: "json \<Rightarrow> json \<Rightarrow> session_result \<Rightarrow> session_result option" where
  "extract_usage request_id usage r =
     (if truthy usage
      then do { k \<leftarrow> py_hash request_id;
                (tot, req_data) \<leftarrow>
                  update_counters usage usage_keys (totals r, req_data_of (by_request r) k);
                Some (r\<lparr>totals := tot, by_request := AList.update k req_data (by_request r)\<rparr>) }
      else Some r)"

definition track_assistant_s ::
  "json \<Rightarrow> session_result \<times> key set \<Rightarrow> (session_result \<times> key set) option" where
  "track_assistant_s entry st =
     do { msg \<leftarrow> dict_get entry ''message'' (JObj []);
          request_id \<leftarrow> dict_get entry ''requestId'' (JStr '''');
          (r1, seen1) \<leftarrow> count_api_call request_id st;
          usage \<leftarrow> dict_get msg ''usage'' (JObj []);
          r2 \<leftarrow> extract_usage request_id usage r1;
          content \<leftarrow> dict_get msg ''content'' (JArr []);
          Some (track_content_s content r2, seen1) }"

definition process_entry_s ::
  "json \<Rightarrow> session_result \<times> key set \<Rightarrow> (session_result \<times> key set) option" where
  "process_entry_s entry st =
     do { entry_type \<leftarrow> dict_get entry ''type'' JNull;
          st1 \<leftarrow> (if entry_type = JStr ''user''
                  then do { r \<leftarrow> track_user_s entry (fst st); Some (r, snd st) }
                  else Some st);
          if entry_type = JStr ''assistant'' then track_assistant_s entry st1 else Some st1 }"

fun scan_s ::
  "json list \<Rightarrow> session_result \<times> key set \<Rightarrow> (session_result \<times> key set) option" where
  "scan_s [] st = Some st"
| "scan_s (entry # entries) st = do { st1 \<leftarrow> process_entry_s entry st; scan_s entries st1 }"

text \<open>Everything after the reading loop.\<close>

definition analyze_s :: "json list \<Rightarrow> session_result option" where
  "analyze_s entries =
     do { uuid_map \<leftarrow> build_uuid_map entries [];
          st \<leftarrow> scan_s entries (init_result_s (length entries), {});
          Some (fst st) }"


section \<open>analyze-hooks.py, parse\_session\<close>

text \<open>
  The dicts of the hook analyzer, as records. Several of them share key names in the
  source, so the fields carry a prefix: \<open>c_\<close> for the per-request dict kept in
  \<^verbatim>\<open>seen_request_ids\<close>, \<open>m_\<close> for \<^verbatim>\<open>result['main_agent']\<close>, \<open>p_\<close> for
  \<^verbatim>\<open>result['hooks']['prompt']\<close>. The entries \<^verbatim>\<open>hooks.command\<close>,
  \<^verbatim>\<open>hooks.agent\<close> and \<^verbatim>\<open>additional_context\<close> are never written after their
  initialisation and are left out, as are \<^verbatim>\<open>session_id\<close> and \<^verbatim>\<open>file_path\<close>.
\<close>

record call_data =
  c_model :: json
  c_input_tokens :: int
  c_output_tokens :: int
  c_cache_creation :: int
  c_cache_read :: int

record main_agent_totals =
  m_api_calls :: int
  m_input_tokens :: int
  m_output_tokens :: int
  m_cache_creation :: int
  m_cache_read :: int
  m_models :: "(string \<times> int) list"

record prompt_hook_totals =
  p_count :: int
  p_input_tokens :: int
  p_output_tokens :: int

record user_prompt =
  prompt_content :: string
  prompt_timestamp :: json

record hooks_result =
  h_entry_count :: nat
  main_agent :: main_agent_totals
  hooks_prompt :: prompt_hook_totals
  api_calls_by_model :: "(string \<times> call_data list) list"
  h_user_prompts :: "user_prompt list"
  h_tool_uses :: "json list"

definition init_result_h :: "nat \<Rightarrow> hooks_result" where
  "init_result_h n =
     \<lparr> h_entry_count = n,
       main_agent = \<lparr> m_api_calls = 0, m_input_tokens = 0, m_output_tokens = 0,
                      m_cache_creation = 0, m_cache_read = 0, m_models = [] \<rparr>,
       hooks_prompt = \<lparr> p_count = 0, p_input_tokens = 0, p_output_tokens = 0 \<rparr>,
       api_calls_by_model = [], h_user_prompts = [], h_tool_uses = [] \<rparr>"

definition track_user_h :: "json \<Rightarrow> hooks_result \<Rightarrow> hooks_result option" where
  "track_user_h entry r =
     do { msg \<leftarrow> dict_get entry ''message'' (JObj []);
          (case msg of
             JObj m \<Rightarrow>
               (case get m ''content'' (JStr '''') of
                  JStr content \<Rightarrow>
                    if content \<noteq> []
                    then do { ts \<leftarrow> dict_get entry ''timestamp'' JNull;
                              Some (r\<lparr>h_user_prompts := h_user_prompts r @
                                      [\<lparr> prompt_content = take 200 content,
                                         prompt_timestamp = ts \<rparr>]\<rparr>) }
                    else Some r
                | _ \<Rightarrow> Some r)
           | _ \<Rightarrow> Some r) }"

text \<open>\<^verbatim>\<open>max(current[...], usage.get(k, 0))\<close>\<close>

definition usage_max :: "int \<Rightarrow> json \<Rightarrow> string \<Rightarrow> int option" where
  "usage_max cur usage k =
     do { val \<leftarrow> dict_get usage k (JInt 0);
          v \<leftarrow> as_int val;
          Some (max cur v) }"

text \<open>\<^verbatim>\<open>seen_request_ids.get(request_id, {'model': model, ... 0})\<close>\<close>

definition current_of :: "(key \<times> call_data) list \<Rightarrow> key \<Rightarrow> json \<Rightarrow> call_data" where
  "current_of seen k model =
     (case map_of seen k of
        Some c \<Rightarrow> c
      | None \<Rightarrow> \<lparr> c_model = model, c_input_tokens = 0, c_output_tokens = 0,
                  c_cache_creation = 0, c_cache_read = 0 \<rparr>)"

fun track_item_h :: "json \<Rightarrow> hooks_result \<Rightarrow> hooks_result" where
  "track_item_h (JObj item) r =
     (if get item ''type'' JNull = JStr ''tool_use''
      then r\<lparr>h_tool_uses := h_tool_uses r @ [get item ''name'' (JStr ''unknown'')]\<rparr>
      else r)"
| "track_item_h _ r = r"

text \<open>\<^verbatim>\<open>if isinstance(content, list): for item in content: ...\<close>\<close>

fun track_content_h :: "json \<Rightarrow> hooks_result \<Rightarrow> hooks_result" where
  "track_content_h (JArr items) r = fold track_item_h items r"
| "track_content_h _ r = r"

text \<open>The block that tracks per-request usage, taking the maximum of each counter.\<close>

definition track_usage_h ::
  "json \<Rightarrow> json \<Rightarrow> json \<Rightarrow> (key \<times> call_data) list \<Rightarrow> (key \<times> call_data) list option" where
  "track_usage_h request_id model usage seen_request_ids =
     (if truthy usage \<and> truthy request_id
      then do { k \<leftarrow> py_hash request_id;
                let current = current_of seen_request_ids k model;
                i \<leftarrow> usage_max (c_input_tokens current) usage ''input_tokens'';
                out \<leftarrow> usage_max (c_output_tokens current) usage ''output_tokens'';
                cc \<leftarrow> usage_max (c_cache_creation current) usage ''cache_creation_input_tokens'';
                cr \<leftarrow> usage_max (c_cache_read current) usage ''cache_read_input_tokens'';
                Some (AList.update k
                        (current\<lparr>c_input_tokens := i, c_output_tokens := out,
                                 c_cache_creation := cc, c_cache_read := cr\<rparr>)
                        seen_request_ids) }
      else Some seen_request_ids)"

definition track_assistant_h ::
  "json \<Rightarrow> hooks_result \<times> (key \<times> call_data) list \<Rightarrow>
   (hooks_result \<times> (key \<times> call_data) list) option" where
  "track_assistant_h entry st =
     (case st of (r, seen_request_ids) \<Rightarrow>
      do { msg \<leftarrow> dict_get entry ''message'' (JObj []);
           request_id \<leftarrow> dict_get entry ''requestId'' (JStr '''');
           model \<leftarrow> dict_get msg ''model'' (JStr ''unknown'');
           usage \<leftarrow> dict_get msg ''usage'' (JObj []);
           seen1 \<leftarrow> track_usage_h request_id model usage seen_request_ids;
           content \<leftarrow> dict_get msg ''content'' (JArr []);
           Some (track_content_h content r, seen1) })"

definition process_entry_h ::
  "json \<Rightarrow> hooks_result \<times> (key \<times> call_data) list \<Rightarrow>
   (hooks_result \<times> (key \<times> call_data) list) option" where
  "process_entry_h entry st =
     do { entry_type \<leftarrow> dict_get entry ''type'' JNull;
          st1 \<leftarrow> (if entry_type = JStr ''user''
                  then do { r \<leftarrow> track_user_h entry (fst st); Some (r, snd st) }
                  else Some st);
          if entry_type = JStr ''assistant'' then track_assistant_h entry st1 else Some st1 }"

fun scan_h ::
  "json list \<Rightarrow> hooks_result \<times> (key \<times> call_data) list \<Rightarrow>
   (hooks_result \<times> (key \<times> call_data) list) option" where
  "scan_h [] st = Some st"
| "scan_h (entry # entries) st = do { st1 \<leftarrow> process_entry_h entry st; scan_h entries st1 }"

text \<open>\<^verbatim>\<open>result['api_calls_by_model'][model].append(data)\<close> on a
  \<^verbatim>\<open>defaultdict(list)\<close>, and \<^verbatim>\<open>models[model] += 1\<close> on a \<^verbatim>\<open>defaultdict(int)\<close>.\<close>

definition append_call ::
  "string \<Rightarrow> call_data \<Rightarrow> (string \<times> call_data list) list \<Rightarrow> (string \<times> call_data list) list" where
  "append_call model data by_model =
     AList.update model ((case map_of by_model model of Some ds \<Rightarrow> ds | None \<Rightarrow> []) @ [data]) by_model"

definition bump_model :: "string \<Rightarrow> (string \<times> int) list \<Rightarrow> (string \<times> int) list" where
  "bump_model model models =
     AList.update model ((case map_of models model of Some n \<Rightarrow> n | None \<Rightarrow> 0) + 1) models"

text \<open>
  The categorisation loop over \<^verbatim>\<open>seen_request_ids.items()\<close>, in insertion order.
  \<^verbatim>\<open>model.lower()\<close> raises unless the stored model is a str.
\<close>

definition add_prompt_hook :: "call_data \<Rightarrow> prompt_hook_totals \<Rightarrow> prompt_hook_totals" where
  "add_prompt_hook data p =
     p\<lparr> p_count := p_count p + 1,
        p_input_tokens := p_input_tokens p + (c_input_tokens data + c_cache_read data),
        p_output_tokens := p_output_tokens p + c_output_tokens data \<rparr>"

definition add_main_agent :: "string \<Rightarrow> call_data \<Rightarrow> main_agent_totals \<Rightarrow> main_agent_totals" where
  "add_main_agent model data m =
     m\<lparr> m_api_calls := m_api_calls m + 1,
        m_input_tokens := m_input_tokens m + c_input_tokens data,
        m_output_tokens := m_output_tokens m + c_output_tokens data,
        m_cache_creation := m_cache_creation m + c_cache_creation data,
        m_cache_read := m_cache_read m + c_cache_read data,
        m_models := bump_model model (m_models m) \<rparr>"

fun categorize :: "(key \<times> call_data) list \<Rightarrow> hooks_result \<Rightarrow> hooks_result option" where
  "categorize [] r = Some r"
| "categorize ((req_id, data) # rest) r =
     (case c_model data of
        JStr model \<Rightarrow>
          (let r1 = r\<lparr>api_calls_by_model := append_call model data (api_calls_by_model r)\<rparr> in
           if is_hook model
           then categorize rest (r1\<lparr>hooks_prompt := add_prompt_hook data (hooks_prompt r1)\<rparr>)
           else categorize rest (r1\<lparr>main_agent := add_main_agent model data (main_agent r1)\<rparr>))
      | _ \<Rightarrow> None)"

text \<open>The scan alone (the reconciled calls), and everything after the reading loop.\<close>

definition reconcile_h :: "json list \<Rightarrow> (hooks_result \<times> (key \<times> call_data) list) option" where
  "reconcile_h entries = scan_h entries (init_result_h (length entries), [])"

definition analyze_h :: "json list \<Rightarrow> hooks_result option" where
  "analyze_h entries =
     do { st \<leftarrow> reconcile_h entries;
          categorize (snd st) (fst st) }"


section \<open>Sample records and logs\<close>

text \<open>An assistant record with a request id, a model and a usage dict.\<close>

definition assistant_entry :: "json \<Rightarrow> string \<Rightarrow> (string \<times> json) list \<Rightarrow> json" where
  "assistant_entry rid m usage =
     JObj [(''type'', JStr ''assistant''), (''requestId'', rid),
           (''message'', JObj [(''model'', JStr m), (''usage'', JObj usage)])]"

text \<open>An assistant record without a \<^verbatim>\<open>requestId\<close> key.\<close>

definition anonymous_entry :: "string \<Rightarrow> (string \<times> json) list \<Rightarrow> json" where
  "anonymous_entry m usage =
     JObj [(''type'', JStr ''assistant''),
           (''message'', JObj [(''model'', JStr m), (''usage'', JObj usage)])]"

text \<open>A user record whose message content is a plain string.\<close>

definition user_entry :: "string \<Rightarrow> json" where
  "user_entry text = JObj [(''type'', JStr ''user''), (''message'', JObj [(''content'', JStr text)])]"



text \<open>A user prompt of 150 characters.\<close>

definition long_text :: string where
  "long_text = replicate 150 (CHR ''x'')"

text \<open>A log with a long prompt, an assistant record, an empty prompt and a short prompt.\<close>

definition prompts_log :: "json list" where
  "prompts_log =
     [user_entry long_text,
      assistant_entry (JStr ''req_1'') ''claude-3-opus-20240229'' [(''input_tokens'', JInt 5)],
      user_entry [],
      user_entry ''hello'']"

text \<open>One call to a Haiku model that reports all four counters.\<close>

definition haiku_log :: "json list" where
  "haiku_log =
     [assistant_entry (JStr ''req_h'') ''claude-3-5-haiku-20241022''
        [(''input_tokens'', JInt 3), (''output_tokens'', JInt 2),
         (''cache_creation_input_tokens'', JInt 4), (''cache_read_input_tokens'', JInt 7)]]"

text \<open>A Haiku call and an Opus call, each reporting all four counters.\<close>

definition mixed_log :: "json list" where
  "mixed_log =
     [assistant_entry (JStr ''req_h'') ''claude-3-5-haiku-20241022''
        [(''input_tokens'', JInt 3), (''output_tokens'', JInt 2),
         (''cache_creation_input_tokens'', JInt 4), (''cache_read_input_tokens'', JInt 7)],
      assistant_entry (JStr ''req_o'') ''claude-3-opus-20240229''
        [(''input_tokens'', JInt 10), (''output_tokens'', JInt 20),
         (''cache_creation_input_tokens'', JInt 30), (''cache_read_input_tokens'', JInt 40)],
      assistant_entry (JStr ''req_o'') ''claude-3-opus-20240229''
        [(''input_tokens'', JInt 11), (''output_tokens'', JInt 25),
         (''cache_creation_input_tokens'', JInt 30), (''cache_read_input_tokens'', JInt 40)]]"

text \<open>One request whose input-token count is reported as 5, 5, 12 and then 8.\<close>

definition resend_log :: "json list" where
  "resend_log =
     map (\<lambda>n. assistant_entry (JStr ''req_1'') ''claude-3-opus-20240229'' [(''input_tokens'', JInt n)])
       [5, 5, 12, 8]"

text \<open>
  A resent snapshot that reports 8 input tokens, and the state of each analyzer after
  request \<^verbatim>\<open>req_1\<close> has reported 12.
\<close>

definition lower_entry :: json where
  "lower_entry =
     assistant_entry (JStr ''req_1'') ''claude-3-opus-20240229'' [(''input_tokens'', JInt 8)]"

definition stored_state_s :: "session_result \<times> key set" where
  "stored_state_s =
     ((init_result_s 4)\<lparr> totals := (\<lambda>k. 0)(''input_tokens'' := 12),
                          by_request := [(KStr ''req_1'', (\<lambda>c. 0)(''input_tokens'' := 12))],
                          api_calls := 1 \<rparr>,
      {KStr ''req_1''})"

definition stored_state_h :: "hooks_result \<times> (key \<times> call_data) list" where
  "stored_state_h =
     (init_result_h 4,
      [(KStr ''req_1'',
        \<lparr> c_model = JStr ''claude-3-opus-20240229'', c_input_tokens = 12, c_output_tokens = 0,
          c_cache_creation = 0, c_cache_read = 0 \<rparr>)])"

text \<open>Two assistant records without a request id, each reporting 5 input tokens.\<close>

definition anonymous_snapshot :: json where
  "anonymous_snapshot = anonymous_entry ''claude-3-opus-20240229'' [(''input_tokens'', JInt 5)]"

definition anonymous_log :: "json list" where
  "anonymous_log = [anonymous_snapshot, anonymous_snapshot]"

text \<open>One request whose four counters are reported four times:
  input 5, 5, 12, 8; output 1, 3, 2, 4; cache creation 7, 7, 0, 7; cache read 2, 9, 9, 1.\<close>

definition usage_of :: "int \<Rightarrow> int \<Rightarrow> int \<Rightarrow> int \<Rightarrow> (string \<times> json) list" where
  "usage_of i out cc cr =
     [(''input_tokens'', JInt i), (''output_tokens'', JInt out),
      (''cache_creation_input_tokens'', JInt cc), (''cache_read_input_tokens'', JInt cr)]"

definition resend_all_log :: "json list" where
  "resend_all_log =
     [assistant_entry (JStr ''req_1'') ''claude-3-opus-20240229'' (usage_of 5 1 7 2),
      assistant_entry (JStr ''req_1'') ''claude-3-opus-20240229'' (usage_of 5 3 7 9),
      assistant_entry (JStr ''req_1'') ''claude-3-opus-20240229'' (usage_of 12 2 0 9),
      assistant_entry (JStr ''req_1'') ''claude-3-opus-20240229'' (usage_of 8 4 7 1)]"

text \<open>An assistant record without a request id that reports input 3, output 4, cache
  creation 7 and cache read 9, and a state of the session analyzer that holds 5, 1, 7
  and 2 under the empty id.\<close>

definition anonymous_all_snapshot :: json where
  "anonymous_all_snapshot = anonymous_entry ''claude-3-opus-20240229'' (usage_of 3 4 7 9)"

definition anonymous_all_state_s :: "session_result \<times> key set" where
  "anonymous_all_state_s =
     ((init_result_s 2)\<lparr>
        totals := (\<lambda>k. 0)(''input_tokens'' := 5, ''output_tokens'' := 1,
                           ''cache_creation_input_tokens'' := 7, ''cache_read_input_tokens'' := 2),
        by_request := [(KStr [], (\<lambda>c. 0)(''input_tokens'' := 5, ''output_tokens'' := 1,
                           ''cache_creation_input_tokens'' := 7,
                           ''cache_read_input_tokens'' := 2))] \<rparr>,
      {})"

section \<open>What a record reports\<close>

text \<open>
  The notions the statements below speak of, read off a parsed record: the text of a
  user-kind record whose message is a dict with a non-empty plain string as content.
\<close>

definition user_text :: "json \<Rightarrow> string option" where
  "user_text entry =
     (case entry of
        JObj e \<Rightarrow>
          if map_of e ''type'' = Some (JStr ''user'')
          then (case map_of e ''message'' of
                  Some (JObj m) \<Rightarrow>
                    (case map_of m ''content'' of
                       Some (JStr s) \<Rightarrow> if s \<noteq> [] then Some s else None
                     | _ \<Rightarrow> None)
                | _ \<Rightarrow> None)
          else None
      | _ \<Rightarrow> None)"

text \<open>
  The reconciled calls of the hook analyzer that the classifier puts in each category,
  in the order of \<^verbatim>\<open>seen_request_ids\<close>.
\<close>

definition is_lightweight :: "call_data \<Rightarrow> bool" where
  "is_lightweight data = (case c_model data of JStr m \<Rightarrow> classify m = Lightweight | _ \<Rightarrow> False)"

definition is_primary :: "call_data \<Rightarrow> bool" where
  "is_primary data = (case c_model data of JStr m \<Rightarrow> classify m = Primary | _ \<Rightarrow> False)"

definition lightweight_calls :: "(key \<times> call_data) list \<Rightarrow> call_data list" where
  "lightweight_calls seen = filter is_lightweight (map snd seen)"

definition primary_calls :: "(key \<times> call_data) list \<Rightarrow> call_data list" where
  "primary_calls seen = filter is_primary (map snd seen)"

text \<open>
  The usage snapshot of a record: the request id and the usage dict of an assistant
  record whose message carries a usage that passes the truth test. The value a snapshot
  reports for a counter is 0 when the counter is absent.
\<close>

definition snapshot :: "json \<Rightarrow> (json \<times> json) option" where
  "snapshot entry =
     (case entry of
        JObj e \<Rightarrow>
          if map_of e ''type'' = Some (JStr ''assistant'')
          then (case get e ''message'' (JObj []) of
                  JObj m \<Rightarrow>
                    if truthy (get m ''usage'' (JObj []))
                    then Some (get e ''requestId'' (JStr ''''), get m ''usage'' (JObj []))
                    else None
                | _ \<Rightarrow> None)
          else None
      | _ \<Rightarrow> None)"

definition reported :: "json \<Rightarrow> string \<Rightarrow> int" where
  "reported usage c =
     (case usage of
        JObj u \<Rightarrow> (case as_int (get u c (JInt 0)) of Some v \<Rightarrow> v | None \<Rightarrow> 0)
      | _ \<Rightarrow> 0)"

text \<open>The snapshots of a log, and those seen for one request id, in arrival order.\<close>

definition snapshots :: "json list \<Rightarrow> (json \<times> json) list" where
  "snapshots es = List.map_filter snapshot es"

definition snapshots_of :: "key \<Rightarrow> json list \<Rightarrow> json list" where
  "snapshots_of k es = map snd (filter (\<lambda>s. py_hash (fst s) = Some k) (snapshots es))"

text \<open>The running maximum of a sequence of values, from the initial 0 of a counter.\<close>

definition running_max :: "int list \<Rightarrow> int" where
  "running_max vs = fold max vs 0"

text \<open>A request id that passes the truth test hashes to one of these keys.\<close>

fun key_truthy :: "key \<Rightarrow> bool" where
  "key_truthy KNone = False"
| "key_truthy (KInt n) = (n \<noteq> 0)"
| "key_truthy (KStr s) = (s \<noteq> [])"

text \<open>The field of the hook analyzer's per-request dict that each usage key feeds.\<close>

definition counter_h :: "string \<Rightarrow> call_data \<Rightarrow> int" where
  "counter_h c d =
     (if c = ''input_tokens'' then c_input_tokens d
      else if c = ''output_tokens'' then c_output_tokens d
      else if c = ''cache_creation_input_tokens'' then c_cache_creation d
      else if c = ''cache_read_input_tokens'' then c_cache_read d
      else 0)"

text \<open>The sum of one counter over the hook analyzer's reconciled calls.\<close>

definition reconciled_sum :: "string \<Rightarrow> (key \<times> call_data) list \<Rightarrow> int" where
  "reconciled_sum c seen = sum_list (map (counter_h c \<circ> snd) seen)"

text \<open>The keys of the request ids that fail the truth test: \<^verbatim>\<open>None\<close>, \<^verbatim>\<open>0\<close>
  (and \<^verbatim>\<open>False\<close>) and the empty string, which is also the default for a missing id.\<close>

definition falsy_keys :: "key list" where
  "falsy_keys = [KNone, KInt 0, KStr []]"

section \<open>How one record changes the state\<close>

lemma dict_get_Some_iff: "dict_get j k d = Some v \<longleftrightarrow> (\<exists>kvs. j = JObj kvs \<and> v = get kvs k d)"
  by (cases j) auto

subsection \<open>Session analyzer\<close>

lemma track_item_s_frame:
  "entry_count (track_item_s i r) = entry_count r"
  "totals (track_item_s i r) = totals r"
  "by_request (track_item_s i r) = by_request r"
  "user_prompts (track_item_s i r) = user_prompts r"
  "api_calls (track_item_s i r) = api_calls r"
  by (cases i; simp add: Let_def)+

lemma fold_track_item_s_frame:
  "entry_count (fold track_item_s items r) = entry_count r \<and>
   totals (fold track_item_s items r) = totals r \<and>
   by_request (fold track_item_s items r) = by_request r \<and>
   user_prompts (fold track_item_s items r) = user_prompts r \<and>
   api_calls (fold track_item_s items r) = api_calls r"
  by (induction items arbitrary: r) (simp_all add: track_item_s_frame)

lemma track_content_s_frame:
  "entry_count (track_content_s c r) = entry_count r"
  "totals (track_content_s c r) = totals r"
  "by_request (track_content_s c r) = by_request r"
  "user_prompts (track_content_s c r) = user_prompts r"
  "api_calls (track_content_s c r) = api_calls r"
  by (cases c; simp add: fold_track_item_s_frame)+

lemma track_user_s_frame:
  assumes "track_user_s e r = Some r'"
  shows "entry_count r' = entry_count r" "totals r' = totals r" "by_request r' = by_request r"
  using assms
  by (auto simp: track_user_s_def dict_get_Some_iff split: Option.bind_splits json.splits if_splits)

lemma count_api_call_frame:
  assumes "count_api_call rid st = Some st'"
  shows "entry_count (fst st') = entry_count (fst st)" "totals (fst st') = totals (fst st)"
    "by_request (fst st') = by_request (fst st)" "user_prompts (fst st') = user_prompts (fst st)"
  using assms
  by (auto simp: count_api_call_def split: Option.bind_splits if_splits prod.splits)

lemma extract_usage_frame:
  assumes "extract_usage rid usage r = Some r'"
  shows "entry_count r' = entry_count r" "user_prompts r' = user_prompts r"
  using assms
  by (auto simp: extract_usage_def split: Option.bind_splits if_splits prod.splits)

lemma track_assistant_s_blocks:
  assumes "track_assistant_s entry st = Some st'"
  obtains e m st1 r2 where "entry = JObj e" "get e ''message'' (JObj []) = JObj m"
    "count_api_call (get e ''requestId'' (JStr [])) st = Some st1"
    "extract_usage (get e ''requestId'' (JStr [])) (get m ''usage'' (JObj [])) (fst st1) = Some r2"
    "st' = (track_content_s (get m ''content'' (JArr [])) r2, snd st1)"
  using assms
  by (auto simp: track_assistant_s_def dict_get_Some_iff split: Option.bind_splits prod.splits)

lemma process_entry_s_cases:
  assumes "process_entry_s entry st = Some st'"
  obtains (user) e r where "entry = JObj e" "map_of e ''type'' = Some (JStr ''user'')"
      "track_user_s entry (fst st) = Some r" "st' = (r, snd st)"
    | (assistant) e where "entry = JObj e" "map_of e ''type'' = Some (JStr ''assistant'')"
      "track_assistant_s entry st = Some st'"
    | (other) e where "entry = JObj e" "map_of e ''type'' \<noteq> Some (JStr ''user'')"
      "map_of e ''type'' \<noteq> Some (JStr ''assistant'')" "st' = st"
proof -
  from assms obtain e where e: "entry = JObj e"
    by (auto simp: process_entry_s_def dict_get_Some_iff split: Option.bind_splits)
  have t: "get e ''type'' JNull = JStr s \<longleftrightarrow> map_of e ''type'' = Some (JStr s)" for s
    by (auto simp: get_def split: option.splits)
  consider "map_of e ''type'' = Some (JStr ''user'')"
    | "map_of e ''type'' = Some (JStr ''assistant'')"
    | "map_of e ''type'' \<noteq> Some (JStr ''user'')" "map_of e ''type'' \<noteq> Some (JStr ''assistant'')"
    by blast
  then show thesis
  proof cases
    case 1
    with assms e t obtain r where "track_user_s entry (fst st) = Some r" "st' = (r, snd st)"
      by (auto simp: process_entry_s_def split: Option.bind_splits)
    with 1 e show thesis by (rule_tac user)
  next
    case 2
    with assms e t have "track_assistant_s entry st = Some st'"
      by (auto simp: process_entry_s_def split: Option.bind_splits)
    with 2 e show thesis by (rule_tac assistant)
  next
    case 3
    with assms e t have "st' = st"
      by (auto simp: process_entry_s_def split: Option.bind_splits)
    with 3 e show thesis by (rule_tac other)
  qed
qed

subsection \<open>Hook analyzer\<close>

lemma track_item_h_frame:
  "h_entry_count (track_item_h i r) = h_entry_count r"
  "main_agent (track_item_h i r) = main_agent r"
  "hooks_prompt (track_item_h i r) = hooks_prompt r"
  "api_calls_by_model (track_item_h i r) = api_calls_by_model r"
  "h_user_prompts (track_item_h i r) = h_user_prompts r"
  by (cases i; simp)+

lemma fold_track_item_h_frame:
  "h_entry_count (fold track_item_h items r) = h_entry_count r \<and>
   main_agent (fold track_item_h items r) = main_agent r \<and>
   hooks_prompt (fold track_item_h items r) = hooks_prompt r \<and>
   api_calls_by_model (fold track_item_h items r) = api_calls_by_model r \<and>
   h_user_prompts (fold track_item_h items r) = h_user_prompts r"
  by (induction items arbitrary: r) (simp_all add: track_item_h_frame)

lemma track_content_h_frame:
  "h_entry_count (track_content_h c r) = h_entry_count r"
  "main_agent (track_content_h c r) = main_agent r"
  "hooks_prompt (track_content_h c r) = hooks_prompt r"
  "api_calls_by_model (track_content_h c r) = api_calls_by_model r"
  "h_user_prompts (track_content_h c r) = h_user_prompts r"
  by (cases c; simp add: fold_track_item_h_frame)+

lemma track_user_h_frame:
  assumes "track_user_h e r = Some r'"
  shows "h_entry_count r' = h_entry_count r" "main_agent r' = main_agent r"
    "hooks_prompt r' = hooks_prompt r" "api_calls_by_model r' = api_calls_by_model r"
  using assms
  by (auto simp: track_user_h_def dict_get_Some_iff split: Option.bind_splits json.splits if_splits)

lemma track_assistant_h_blocks:
  assumes "track_assistant_h entry st = Some st'"
  obtains e m where "entry = JObj e" "get e ''message'' (JObj []) = JObj m"
    "track_usage_h (get e ''requestId'' (JStr [])) (get m ''model'' (JStr ''unknown''))
       (get m ''usage'' (JObj [])) (snd st) = Some (snd st')"
    "fst st' = track_content_h (get m ''content'' (JArr [])) (fst st)"
  using assms
  by (auto simp: track_assistant_h_def dict_get_Some_iff split: Option.bind_splits prod.splits)

lemma process_entry_h_cases:
  assumes "process_entry_h entry st = Some st'"
  obtains (user) e r where "entry = JObj e" "map_of e ''type'' = Some (JStr ''user'')"
      "track_user_h entry (fst st) = Some r" "st' = (r, snd st)"
    | (assistant) e where "entry = JObj e" "map_of e ''type'' = Some (JStr ''assistant'')"
      "track_assistant_h entry st = Some st'"
    | (other) e where "entry = JObj e" "map_of e ''type'' \<noteq> Some (JStr ''user'')"
      "map_of e ''type'' \<noteq> Some (JStr ''assistant'')" "st' = st"
proof -
  from assms obtain e where e: "entry = JObj e"
    by (auto simp: process_entry_h_def dict_get_Some_iff split: Option.bind_splits)
  have t: "get e ''type'' JNull = JStr s \<longleftrightarrow> map_of e ''type'' = Some (JStr s)" for s
    by (auto simp: get_def split: option.splits)
  consider "map_of e ''type'' = Some (JStr ''user'')"
    | "map_of e ''type'' = Some (JStr ''assistant'')"
    | "map_of e ''type'' \<noteq> Some (JStr ''user'')" "map_of e ''type'' \<noteq> Some (JStr ''assistant'')"
    by blast
  then show thesis
  proof cases
    case 1
    with assms e t obtain r where "track_user_h entry (fst st) = Some r" "st' = (r, snd st)"
      by (auto simp: process_entry_h_def split: Option.bind_splits)
    with 1 e show thesis by (rule_tac user)
  next
    case 2
    with assms e t have "track_assistant_h entry st = Some st'"
      by (auto simp: process_entry_h_def split: Option.bind_splits)
    with 2 e show thesis by (rule_tac assistant)
  next
    case 3
    with assms e t have "st' = st"
      by (auto simp: process_entry_h_def split: Option.bind_splits)
    with 3 e show thesis by (rule_tac other)
  qed
qed

lemma categorize_frame:
  "categorize calls r = Some r' \<Longrightarrow>
   h_entry_count r' = h_entry_count r \<and> h_user_prompts r' = h_user_prompts r"
proof (induction calls r rule: categorize.induct)
  case (1 r)
  then show ?case by simp
next
  case (2 req_id data rest r)
  then show ?case by (auto simp: Let_def split: json.splits if_splits)
qed

subsection \<open>Snapshots\<close>

lemma snapshot_not_assistant:
  "map_of e ''type'' \<noteq> Some (JStr ''assistant'') \<Longrightarrow> snapshot (JObj e) = None"
  by (simp add: snapshot_def)

lemma snapshot_assistant:
  "map_of e ''type'' = Some (JStr ''assistant'') \<Longrightarrow> get e ''message'' (JObj []) = JObj m \<Longrightarrow>
   snapshot (JObj e) =
     (if truthy (get m ''usage'' (JObj []))
      then Some (get e ''requestId'' (JStr []), get m ''usage'' (JObj [])) else None)"
  by (simp add: snapshot_def)

lemma process_entry_s_snapshot:
  assumes "process_entry_s entry st = Some st'"
  shows "case snapshot entry of
           None \<Rightarrow> totals (fst st') = totals (fst st) \<and> by_request (fst st') = by_request (fst st)
         | Some (rid, usage) \<Rightarrow>
             (\<exists>k tot req. py_hash rid = Some k \<and>
                update_counters usage usage_keys (totals (fst st), req_data_of (by_request (fst st)) k)
                  = Some (tot, req) \<and>
                totals (fst st') = tot \<and>
                by_request (fst st') = AList.update k req (by_request (fst st)))"
  using assms
proof (cases rule: process_entry_s_cases)
  case (user e r)
  then show ?thesis using track_user_s_frame[of entry "fst st" r]
    by (simp add: snapshot_not_assistant)
next
  case (assistant e)
  from assistant(3) show ?thesis
  proof (rule track_assistant_s_blocks)
    fix e' m st1 r2
    assume b: "entry = JObj e'" "get e' ''message'' (JObj []) = JObj m"
      "count_api_call (get e' ''requestId'' (JStr [])) st = Some st1"
      "extract_usage (get e' ''requestId'' (JStr [])) (get m ''usage'' (JObj [])) (fst st1) = Some r2"
      "st' = (track_content_s (get m ''content'' (JArr [])) r2, snd st1)"
    with assistant have ee: "e' = e" by simp
    note fr = count_api_call_frame[OF b(3)]
    show ?thesis
    proof (cases "truthy (get m ''usage'' (JObj []))")
      case True
      with b(4) fr show ?thesis
        using assistant(1,2) b(1,2,5) ee
        by (auto simp: snapshot_assistant extract_usage_def track_content_s_frame
            split: Option.bind_splits prod.splits)
    next
      case False
      with b(4) fr show ?thesis
        using assistant(1,2) b(1,2,5) ee
        by (auto simp: snapshot_assistant extract_usage_def track_content_s_frame)
    qed
  qed
next
  case (other e)
  then show ?thesis by (simp add: snapshot_not_assistant)
qed

lemma process_entry_h_snapshot:
  assumes "process_entry_h entry st = Some st'"
  shows "case snapshot entry of
           None \<Rightarrow> snd st' = snd st
         | Some (rid, usage) \<Rightarrow>
             (\<exists>model. track_usage_h rid model usage (snd st) = Some (snd st')) \<and> truthy usage"
  using assms
proof (cases rule: process_entry_h_cases)
  case (user e r)
  then show ?thesis by (simp add: snapshot_not_assistant)
next
  case (assistant e)
  from assistant(3) show ?thesis
  proof (rule track_assistant_h_blocks)
    fix e' m
    assume b: "entry = JObj e'" "get e' ''message'' (JObj []) = JObj m"
      "track_usage_h (get e' ''requestId'' (JStr [])) (get m ''model'' (JStr ''unknown''))
         (get m ''usage'' (JObj [])) (snd st) = Some (snd st')"
      "fst st' = track_content_h (get m ''content'' (JArr [])) (fst st)"
    with assistant have ee: "e' = e" by simp
    show ?thesis
    proof (cases "truthy (get m ''usage'' (JObj []))")
      case True
      with b assistant(1,2) ee show ?thesis
        by (auto simp: snapshot_assistant)
    next
      case False
      with b assistant(1,2) ee show ?thesis
        by (auto simp: snapshot_assistant track_usage_h_def)
    qed
  qed
next
  case (other e)
  then show ?thesis by (simp add: snapshot_not_assistant)
qed

subsection \<open>Fields a record leaves alone\<close>

lemma track_assistant_s_frame:
  assumes "track_assistant_s entry st = Some st'"
  shows "entry_count (fst st') = entry_count (fst st)" "user_prompts (fst st') = user_prompts (fst st)"
proof -
  from assms obtain e m st1 r2 where
    b: "count_api_call (get e ''requestId'' (JStr [])) st = Some st1"
      "extract_usage (get e ''requestId'' (JStr [])) (get m ''usage'' (JObj [])) (fst st1) = Some r2"
      "st' = (track_content_s (get m ''content'' (JArr [])) r2, snd st1)"
    by (rule track_assistant_s_blocks)
  from count_api_call_frame[OF b(1)] extract_usage_frame[OF b(2)] b(3)
  show "entry_count (fst st') = entry_count (fst st)" "user_prompts (fst st') = user_prompts (fst st)"
    by (simp_all add: track_content_s_frame)
qed

lemma track_assistant_h_frame:
  assumes "track_assistant_h entry st = Some st'"
  shows "h_entry_count (fst st') = h_entry_count (fst st)"
    "h_user_prompts (fst st') = h_user_prompts (fst st)"
    "main_agent (fst st') = main_agent (fst st)" "hooks_prompt (fst st') = hooks_prompt (fst st)"
  using assms
  by (auto elim!: track_assistant_h_blocks simp: track_content_h_frame)

lemma process_entry_h_frame:
  assumes "process_entry_h entry st = Some st'"
  shows "h_entry_count (fst st') = h_entry_count (fst st)"
    "main_agent (fst st') = main_agent (fst st)" "hooks_prompt (fst st') = hooks_prompt (fst st)"
  using assms
  by (cases rule: process_entry_h_cases; simp add: track_user_h_frame track_assistant_h_frame)+

lemma scan_h_frame:
  "scan_h es st = Some st' \<Longrightarrow>
   h_entry_count (fst st') = h_entry_count (fst st) \<and>
   main_agent (fst st') = main_agent (fst st) \<and> hooks_prompt (fst st') = hooks_prompt (fst st)"
proof (induction es arbitrary: st)
  case Nil
  then show ?case by simp
next
  case (Cons e es)
  then obtain st1 where 1: "process_entry_h e st = Some st1" "scan_h es st1 = Some st'"
    by (auto split: Option.bind_splits)
  then show ?case using Cons.IH[of st1] process_entry_h_frame[of e st st1] by simp
qed


subsection \<open>The effect of one snapshot\<close>

lemma py_hash_truthy: "py_hash rid = Some k \<Longrightarrow> truthy rid = key_truthy k"
  by (cases rid) (auto split: if_splits)

lemma distinct_usage_keys: "distinct usage_keys"
  by (simp add: usage_keys_def)

lemma req_data_of_update:
  "req_data_of (AList.update k0 req al) k = (if k = k0 then req else req_data_of al k)"
  by (simp add: req_data_of_def update_conv')

lemma update_counters_effect:
  assumes "update_counters (JObj u) keys (tot, req) = Some (tot', req')" and "distinct keys"
  shows "req' c = (if c \<in> set keys then max (req c) (reported (JObj u) c) else req c) \<and>
         tot' c = tot c + (req' c - req c)"
  using assms
proof (induction keys arbitrary: tot req)
  case Nil
  then show ?case by simp
next
  case (Cons key keys)
  from Cons.prems(1) obtain v where v: "as_int (get u key (JInt 0)) = Some v"
    and rest: "update_counters (JObj u) keys
        (if v > req key then (tot(key := tot key + (v - req key)), req(key := v)) else (tot, req))
        = Some (tot', req')"
    by (auto split: Option.bind_splits)
  have rep: "reported (JObj u) key = v" using v by (simp add: reported_def)
  from Cons.prems(2) have d: "distinct keys" "key \<notin> set keys" by auto
  show ?case
  proof (cases "v > req key")
    case True
    with rest have "update_counters (JObj u) keys (tot(key := tot key + (v - req key)), req(key := v))
        = Some (tot', req')" by simp
    from Cons.IH[OF this d(1)] d(2) True rep show ?thesis by auto
  next
    case False
    with rest have "update_counters (JObj u) keys (tot, req) = Some (tot', req')" by simp
    from Cons.IH[OF this d(1)] d(2) False rep show ?thesis by auto
  qed
qed

lemma update_counters_dict:
  "update_counters usage (k # ks) st = Some st' \<Longrightarrow> \<exists>u. usage = JObj u"
  by (cases usage; cases st) auto

lemma update_usage_keys_effect:
  assumes "update_counters usage usage_keys (tot, req) = Some (tot', req')"
  shows "req' c = (if c \<in> set usage_keys then max (req c) (reported usage c) else req c)"
    and "tot' c = tot c + (req' c - req c)"
proof -
  from assms obtain u where "usage = JObj u"
    using update_counters_dict[of usage "''input_tokens''" _ "(tot, req)" "(tot', req')"]
    by (auto simp: usage_keys_def)
  with update_counters_effect[of u usage_keys tot req tot' req' c] assms distinct_usage_keys
  show "req' c = (if c \<in> set usage_keys then max (req c) (reported usage c) else req c)"
    and "tot' c = tot c + (req' c - req c)" by simp_all
qed

text \<open>The session analyzer: what one record does to a stored counter and to a total.\<close>

lemma process_entry_s_effect:
  assumes "process_entry_s entry st = Some st'"
  shows "req_data_of (by_request (fst st')) k c =
           (case snapshot entry of
              None \<Rightarrow> req_data_of (by_request (fst st)) k c
            | Some (rid, usage) \<Rightarrow>
                if py_hash rid = Some k \<and> c \<in> set usage_keys
                then max (req_data_of (by_request (fst st)) k c) (reported usage c)
                else req_data_of (by_request (fst st)) k c)"
    and "totals (fst st') c =
           (case snapshot entry of
              None \<Rightarrow> totals (fst st) c
            | Some (rid, usage) \<Rightarrow>
                totals (fst st) c +
                  (req_data_of (by_request (fst st')) (the (py_hash rid)) c -
                   req_data_of (by_request (fst st)) (the (py_hash rid)) c))"
    and "map fst (by_request (fst st')) =
           (case snapshot entry of
              None \<Rightarrow> map fst (by_request (fst st))
            | Some (rid, usage) \<Rightarrow>
                if the (py_hash rid) \<in> set (map fst (by_request (fst st)))
                then map fst (by_request (fst st))
                else map fst (by_request (fst st)) @ [the (py_hash rid)])"
    and "snapshot entry = Some (rid, usage) \<Longrightarrow> py_hash rid \<noteq> None"
proof -
  note s = process_entry_s_snapshot[OF assms]
  show "req_data_of (by_request (fst st')) k c =
           (case snapshot entry of
              None \<Rightarrow> req_data_of (by_request (fst st)) k c
            | Some (rid, usage) \<Rightarrow>
                if py_hash rid = Some k \<and> c \<in> set usage_keys
                then max (req_data_of (by_request (fst st)) k c) (reported usage c)
                else req_data_of (by_request (fst st)) k c)"
  proof (cases "snapshot entry")
    case None
    with s show ?thesis by simp
  next
    case (Some p)
    obtain rid usage where p: "p = (rid, usage)" by (cases p)
    from s Some p obtain k0 tot req where k0: "py_hash rid = Some k0"
      and uc: "update_counters usage usage_keys (totals (fst st), req_data_of (by_request (fst st)) k0)
                 = Some (tot, req)"
      and r: "totals (fst st') = tot" "by_request (fst st') = AList.update k0 req (by_request (fst st))"
      by auto
    from update_usage_keys_effect(1)[OF uc, of c] k0 r Some p show ?thesis
      by (auto simp: req_data_of_update)
  qed
  show "totals (fst st') c =
           (case snapshot entry of
              None \<Rightarrow> totals (fst st) c
            | Some (rid, usage) \<Rightarrow>
                totals (fst st) c +
                  (req_data_of (by_request (fst st')) (the (py_hash rid)) c -
                   req_data_of (by_request (fst st)) (the (py_hash rid)) c))"
  proof (cases "snapshot entry")
    case None
    with s show ?thesis by simp
  next
    case (Some p)
    obtain rid usage where p: "p = (rid, usage)" by (cases p)
    from s Some p obtain k0 tot req where k0: "py_hash rid = Some k0"
      and uc: "update_counters usage usage_keys (totals (fst st), req_data_of (by_request (fst st)) k0)
                 = Some (tot, req)"
      and r: "totals (fst st') = tot" "by_request (fst st') = AList.update k0 req (by_request (fst st))"
      by auto
    from update_usage_keys_effect(2)[OF uc, of c] k0 r Some p show ?thesis
      by (auto simp: req_data_of_update)
  qed
  show "map fst (by_request (fst st')) =
           (case snapshot entry of
              None \<Rightarrow> map fst (by_request (fst st))
            | Some (rid, usage) \<Rightarrow>
                if the (py_hash rid) \<in> set (map fst (by_request (fst st)))
                then map fst (by_request (fst st))
                else map fst (by_request (fst st)) @ [the (py_hash rid)])"
  proof (cases "snapshot entry")
    case None
    with s show ?thesis by simp
  next
    case (Some p)
    obtain rid usage where p: "p = (rid, usage)" by (cases p)
    from s Some p obtain k0 tot req where k0: "py_hash rid = Some k0"
      and r: "by_request (fst st') = AList.update k0 req (by_request (fst st))"
      by auto
    from k0 r Some p show ?thesis
      by (auto simp: update_keys)
  qed
  show "snapshot entry = Some (rid, usage) \<Longrightarrow> py_hash rid \<noteq> None"
    using s by auto
qed

lemma current_of_update:
  "current_of (AList.update k0 d seen) k m = (if k = k0 then d else current_of seen k m)"
  by (simp add: current_of_def update_conv')

lemma counter_h_current_of_model:
  "counter_h c (current_of seen k m) = counter_h c (current_of seen k m')"
  by (simp add: current_of_def counter_h_def split: option.splits)

lemma usage_max_effect:
  "usage_max cur usage c = Some v \<Longrightarrow> v = max cur (reported usage c)"
  by (auto simp: usage_max_def reported_def dict_get_Some_iff split: Option.bind_splits)

lemma track_usage_h_effect:
  assumes "track_usage_h rid model usage seen = Some seen'" and "truthy usage" and "truthy rid"
  shows "\<exists>k d. py_hash rid = Some k \<and> seen' = AList.update k d seen \<and>
    (\<forall>c \<in> set usage_keys.
       counter_h c d = max (counter_h c (current_of seen k model)) (reported usage c)) \<and>
    c_model d = c_model (current_of seen k model)"
proof -
  from assms obtain k i out cc cr where k: "py_hash rid = Some k"
    and i: "usage_max (c_input_tokens (current_of seen k model)) usage ''input_tokens'' = Some i"
    and out: "usage_max (c_output_tokens (current_of seen k model)) usage ''output_tokens'' = Some out"
    and cc: "usage_max (c_cache_creation (current_of seen k model)) usage
               ''cache_creation_input_tokens'' = Some cc"
    and cr: "usage_max (c_cache_read (current_of seen k model)) usage
               ''cache_read_input_tokens'' = Some cr"
    and s: "seen' = AList.update k
        ((current_of seen k model)\<lparr>c_input_tokens := i, c_output_tokens := out,
                                    c_cache_creation := cc, c_cache_read := cr\<rparr>) seen"
    by (auto simp: track_usage_h_def Let_def split: Option.bind_splits)
  let ?d = "(current_of seen k model)\<lparr>c_input_tokens := i, c_output_tokens := out,
                                    c_cache_creation := cc, c_cache_read := cr\<rparr>"
  have "counter_h c ?d = max (counter_h c (current_of seen k model)) (reported usage c)"
    if "c \<in> set usage_keys" for c
    using that usage_max_effect[OF i] usage_max_effect[OF out] usage_max_effect[OF cc]
      usage_max_effect[OF cr]
    by (auto simp: usage_keys_def counter_h_def)
  moreover have "c_model ?d = c_model (current_of seen k model)" by simp
  ultimately show ?thesis using k s by blast
qed

text \<open>The hook analyzer: what one record does to a stored counter.\<close>

lemma process_entry_h_effect:
  assumes "process_entry_h entry st = Some st'"
  shows "c \<in> set usage_keys \<Longrightarrow>
         counter_h c (current_of (snd st') k m) =
           (case snapshot entry of
              None \<Rightarrow> counter_h c (current_of (snd st) k m)
            | Some (rid, usage) \<Rightarrow>
                if py_hash rid = Some k \<and> key_truthy k
                then max (counter_h c (current_of (snd st) k m)) (reported usage c)
                else counter_h c (current_of (snd st) k m))"
    and "map fst (snd st') =
           (case snapshot entry of
              None \<Rightarrow> map fst (snd st)
            | Some (rid, usage) \<Rightarrow>
                if truthy rid \<and> the (py_hash rid) \<notin> set (map fst (snd st))
                then map fst (snd st) @ [the (py_hash rid)]
                else map fst (snd st))"
    and "snapshot entry = Some (rid, usage) \<Longrightarrow> truthy rid \<Longrightarrow> py_hash rid \<noteq> None"
proof -
  note s = process_entry_h_snapshot[OF assms]
  have main: "(c \<in> set usage_keys \<longrightarrow>
         counter_h c (current_of (snd st') k m) =
           (case snapshot entry of
              None \<Rightarrow> counter_h c (current_of (snd st) k m)
            | Some (rid, usage) \<Rightarrow>
                if py_hash rid = Some k \<and> key_truthy k
                then max (counter_h c (current_of (snd st) k m)) (reported usage c)
                else counter_h c (current_of (snd st) k m))) \<and>
     map fst (snd st') =
           (case snapshot entry of
              None \<Rightarrow> map fst (snd st)
            | Some (rid, usage) \<Rightarrow>
                if truthy rid \<and> the (py_hash rid) \<notin> set (map fst (snd st))
                then map fst (snd st) @ [the (py_hash rid)]
                else map fst (snd st)) \<and>
     (\<forall>rid usage. snapshot entry = Some (rid, usage) \<longrightarrow> truthy rid \<longrightarrow> py_hash rid \<noteq> None)"
  proof (cases "snapshot entry")
    case None
    with s show ?thesis by simp
  next
    case (Some p)
    obtain rid usage where p: "p = (rid, usage)" by (cases p)
    from s Some p obtain model where tu: "track_usage_h rid model usage (snd st) = Some (snd st')"
      and u: "truthy usage" by auto
    show ?thesis
    proof (cases "truthy rid")
      case True
      from track_usage_h_effect[OF tu u True] obtain k0 d where k0: "py_hash rid = Some k0"
        and upd: "snd st' = AList.update k0 d (snd st)"
        and cnt: "\<And>c. c \<in> set usage_keys \<Longrightarrow>
           counter_h c d = max (counter_h c (current_of (snd st) k0 model)) (reported usage c)"
        by blast
      from py_hash_truthy[OF k0] True have kt: "key_truthy k0" by simp
      have "counter_h c (current_of (snd st') k m) =
          (if k = k0 then max (counter_h c (current_of (snd st) k m)) (reported usage c)
           else counter_h c (current_of (snd st) k m))" if "c \<in> set usage_keys"
        using cnt[OF that] upd counter_h_current_of_model[of c "snd st" k0 model m]
        by (simp add: current_of_update)
      with Some p k0 kt upd True show ?thesis
        by (auto simp: update_keys)
    next
      case False
      with tu have same: "snd st' = snd st" by (simp add: track_usage_h_def)
      have "\<not> (py_hash rid = Some k \<and> key_truthy k)"
        using False py_hash_truthy[of rid k] by auto
      with Some p same False show ?thesis by auto
    qed
  qed
  from main show "c \<in> set usage_keys \<Longrightarrow>
         counter_h c (current_of (snd st') k m) =
           (case snapshot entry of
              None \<Rightarrow> counter_h c (current_of (snd st) k m)
            | Some (rid, usage) \<Rightarrow>
                if py_hash rid = Some k \<and> key_truthy k
                then max (counter_h c (current_of (snd st) k m)) (reported usage c)
                else counter_h c (current_of (snd st) k m))" by blast
  from main show "map fst (snd st') =
           (case snapshot entry of
              None \<Rightarrow> map fst (snd st)
            | Some (rid, usage) \<Rightarrow>
                if truthy rid \<and> the (py_hash rid) \<notin> set (map fst (snd st))
                then map fst (snd st) @ [the (py_hash rid)]
                else map fst (snd st))" by blast
  from main show "snapshot entry = Some (rid, usage) \<Longrightarrow> truthy rid \<Longrightarrow> py_hash rid \<noteq> None"
    by blast
qed

subsection \<open>The whole scan\<close>

lemma snapshots_of_Cons:
  "snapshots_of k (e # es) =
     (case snapshot e of
        None \<Rightarrow> []
      | Some (rid, usage) \<Rightarrow> if py_hash rid = Some k then [usage] else []) @ snapshots_of k es"
  by (auto simp: snapshots_of_def snapshots_def List.map_filter_simps split: option.splits)

lemma snapshots_of_Nil: "snapshots_of k [] = []"
  by (simp add: snapshots_of_def snapshots_def List.map_filter_simps)

lemma running_max_Max: "running_max vs = Max (insert 0 (set vs))"
proof -
  have "fold max vs a = Max (insert a (set vs))" for a :: int
  proof (induction vs arbitrary: a)
    case Nil
    then show ?case by simp
  next
    case (Cons v vs)
    have "Max (insert (max v a) (set vs)) = Max (insert a (insert v (set vs)))"
      by (cases "set vs = {}") (simp_all add: max.commute max.assoc max.left_commute)
    with Cons show ?case by simp
  qed
  then show ?thesis by (simp add: running_max_def)
qed

lemma scan_s_req_data:
  assumes "scan_s es st = Some st'" and "c \<in> set usage_keys"
  shows "req_data_of (by_request (fst st')) k c =
         fold max (map (\<lambda>u. reported u c) (snapshots_of k es)) (req_data_of (by_request (fst st)) k c)"
  using assms(1)
proof (induction es arbitrary: st)
  case Nil
  then show ?case by (simp add: snapshots_of_Nil)
next
  case (Cons e es)
  then obtain st1 where 1: "process_entry_s e st = Some st1" "scan_s es st1 = Some st'"
    by (auto split: Option.bind_splits)
  from process_entry_s_effect(1)[OF 1(1), of k c] assms(2) Cons.IH[OF 1(2)]
  show ?case
    by (auto simp: snapshots_of_Cons max.commute split: option.splits)
qed

lemma scan_h_counter:
  assumes "scan_h es st = Some st'" and "c \<in> set usage_keys"
  shows "counter_h c (current_of (snd st') k m) =
         (if key_truthy k
          then fold max (map (\<lambda>u. reported u c) (snapshots_of k es))
                 (counter_h c (current_of (snd st) k m))
          else counter_h c (current_of (snd st) k m))"
  using assms(1)
proof (induction es arbitrary: st)
  case Nil
  then show ?case by (simp add: snapshots_of_Nil)
next
  case (Cons e es)
  then obtain st1 where 1: "process_entry_h e st = Some st1" "scan_h es st1 = Some st'"
    by (auto split: Option.bind_splits)
  from process_entry_h_effect(1)[OF 1(1) assms(2), of k m] Cons.IH[OF 1(2)]
  show ?case
    by (auto simp: snapshots_of_Cons max.commute split: option.splits)
qed

lemma req_data_of_Nil: "req_data_of [] k c = 0"
  by (simp add: req_data_of_def)

lemma counter_h_current_of_Nil: "counter_h c (current_of [] k m) = 0"
  by (simp add: current_of_def counter_h_def)

lemma analyze_s_running_max:
  assumes "analyze_s es = Some r" and "c \<in> set usage_keys"
  shows "req_data_of (by_request r) k c = running_max (map (\<lambda>u. reported u c) (snapshots_of k es))"
proof -
  from assms(1) obtain st' where "scan_s es (init_result_s (length es), {}) = Some st'" "r = fst st'"
    by (auto simp: analyze_s_def split: Option.bind_splits)
  from scan_s_req_data[OF this(1) assms(2), of k] this(2) show ?thesis
    by (simp add: init_result_s_def req_data_of_Nil running_max_def)
qed

lemma reconcile_h_running_max:
  assumes "reconcile_h es = Some (rh, seen)" and "c \<in> set usage_keys" and "key_truthy k"
  shows "counter_h c (current_of seen k m) = running_max (map (\<lambda>u. reported u c) (snapshots_of k es))"
  using scan_h_counter[of es "(init_result_h (length es), [])" "(rh, seen)" c k m] assms
  by (simp add: reconcile_h_def counter_h_current_of_Nil running_max_def)

subsection \<open>Counters only grow\<close>

lemma req_data_of_stored: "map_of al k = Some d \<Longrightarrow> req_data_of al k = d"
  by (simp add: req_data_of_def)

lemma current_of_stored: "map_of seen k = Some d \<Longrightarrow> current_of seen k m = d"
  by (simp add: current_of_def)

lemma stored_key: "map_of al k = Some d \<Longrightarrow> k \<in> set (map fst al)"
  by (simp add: map_of_SomeD image_iff) (metis map_of_SomeD fst_conv)

lemma key_stored: "k \<in> set (map fst al) \<Longrightarrow> \<exists>d. map_of al k = Some d"
  by (induction al) auto

lemma process_entry_s_mono:
  assumes "process_entry_s entry st = Some st'"
  shows "req_data_of (by_request (fst st)) k c \<le> req_data_of (by_request (fst st')) k c"
    and "totals (fst st) c \<le> totals (fst st') c"
    and "set (map fst (by_request (fst st))) \<subseteq> set (map fst (by_request (fst st')))"
proof -
  show 1: "req_data_of (by_request (fst st)) k c \<le> req_data_of (by_request (fst st')) k c" for k
    using process_entry_s_effect(1)[OF assms, of k c]
    by (auto split: option.splits if_splits)
  show "totals (fst st) c \<le> totals (fst st') c"
  proof (cases "snapshot entry")
    case None
    with process_entry_s_effect(2)[OF assms, of c] show ?thesis by simp
  next
    case (Some p)
    obtain rid usage where "p = (rid, usage)" by (cases p)
    with Some process_entry_s_effect(2)[OF assms, of c] 1[of "the (py_hash rid)"]
    show ?thesis by simp
  qed
  show "set (map fst (by_request (fst st))) \<subseteq> set (map fst (by_request (fst st')))"
    using process_entry_s_effect(3)[OF assms]
    by (auto split: option.splits if_splits)
qed

lemma process_entry_h_mono:
  assumes "process_entry_h entry st = Some st'"
  shows "c \<in> set usage_keys \<Longrightarrow>
         counter_h c (current_of (snd st) k m) \<le> counter_h c (current_of (snd st') k m)"
    and "set (map fst (snd st)) \<subseteq> set (map fst (snd st'))"
proof -
  show "counter_h c (current_of (snd st) k m) \<le> counter_h c (current_of (snd st') k m)"
    if c: "c \<in> set usage_keys"
    using process_entry_h_effect(1)[OF assms c, of k m]
    by (auto split: option.splits if_splits)
  show "set (map fst (snd st)) \<subseteq> set (map fst (snd st'))"
    using process_entry_h_effect(2)[OF assms]
    by (auto split: option.splits if_splits)
qed

lemma scan_s_mono:
  "scan_s es st = Some st' \<Longrightarrow>
   req_data_of (by_request (fst st)) k c \<le> req_data_of (by_request (fst st')) k c \<and>
   totals (fst st) c \<le> totals (fst st') c"
proof (induction es arbitrary: st)
  case Nil
  then show ?case by simp
next
  case (Cons e es)
  then obtain st1 where 1: "process_entry_s e st = Some st1" "scan_s es st1 = Some st'"
    by (auto split: Option.bind_splits)
  from process_entry_s_mono(1)[OF 1(1), of k c] process_entry_s_mono(2)[OF 1(1), of c]
    Cons.IH[OF 1(2)] show ?case by linarith
qed

lemma scan_h_mono:
  "scan_h es st = Some st' \<Longrightarrow> c \<in> set usage_keys \<Longrightarrow>
   counter_h c (current_of (snd st) k m) \<le> counter_h c (current_of (snd st') k m)"
proof (induction es arbitrary: st)
  case Nil
  then show ?case by simp
next
  case (Cons e es)
  then obtain st1 where 1: "process_entry_h e st = Some st1" "scan_h es st1 = Some st'"
    by (auto split: Option.bind_splits)
  from process_entry_h_mono(1)[OF 1(1) Cons.prems(2), of k m] Cons.IH[OF 1(2) Cons.prems(2)]
  show ?case by linarith
qed

lemma counter_h_fields:
  "c_input_tokens d = counter_h ''input_tokens'' d"
  "c_output_tokens d = counter_h ''output_tokens'' d"
  "c_cache_creation d = counter_h ''cache_creation_input_tokens'' d"
  "c_cache_read d = counter_h ''cache_read_input_tokens'' d"
  by (simp_all add: counter_h_def)

lemma usage_keys_mem:
  "''input_tokens'' \<in> set usage_keys" "''output_tokens'' \<in> set usage_keys"
  "''cache_creation_input_tokens'' \<in> set usage_keys" "''cache_read_input_tokens'' \<in> set usage_keys"
  by (simp_all add: usage_keys_def)

lemma not_key_truthy_iff: "\<not> key_truthy k \<longleftrightarrow> k \<in> set falsy_keys"
  by (cases k) (auto simp: falsy_keys_def)

lemma counter_name_cases:
  "c \<in> {''input_tokens'', ''output_tokens'',
         ''cache_creation_input_tokens'', ''cache_read_input_tokens''} \<Longrightarrow> c \<in> set usage_keys"
  by (auto simp: usage_keys_def)


section \<open>The classifier\<close>










section \<open>The cost calculators\<close>

lemma pricing_unknown: "tier \<notin> {''opus'', ''sonnet'', ''haiku''} \<Longrightarrow> pricing tier = None"
  by (simp add: pricing_def)

lemma pricing_opus: "pricing ''opus'' = Some opus_rates"
  by (simp add: pricing_def)



text \<open>
  Claim C6. A tier that is not a key of the pricing table is priced exactly as
  \<^verbatim>\<open>opus\<close> on the same token counts, in whatever arithmetic the calculator runs on;
  the lookup has a default and no failing branch.
\<close>

theorem unknown_tier_priced_as_opus:
  "tier \<notin> {''opus'', ''sonnet'', ''haiku''} \<Longrightarrow>
   calculate_cost_h A tokens tier = calculate_cost_h A tokens ''opus''"
  by (simp add: calculate_cost_h_def pricing_unknown pricing_opus)

theorem unknown_tier_priced_as_opus_witness:
  "''gpt-4'' \<notin> {''opus'', ''sonnet'', ''haiku''} \<and>
   calculate_cost_h exact [''input_tokens'' \<mapsto> 2000000, ''cache_read'' \<mapsto> 1000000] ''gpt-4'' =
   calculate_cost_h exact [''input_tokens'' \<mapsto> 2000000, ''cache_read'' \<mapsto> 1000000] ''opus'' \<and>
   calculate_cost_h exact [''input_tokens'' \<mapsto> 2000000, ''cache_read'' \<mapsto> 1000000] ''opus''
     = 315 / 10"
proof -
  have h: "''gpt-4'' \<notin> {''opus'', ''sonnet'', ''haiku''}" by simp
  have v: "calculate_cost_h exact [''input_tokens'' \<mapsto> 2000000, ''cache_read'' \<mapsto> 1000000] ''opus''
             = 315 / 10"
    by (simp add: calculate_cost_h_def pricing_opus exact_def opus_rates_def tokens_get_def)
  show ?thesis
    using h v unknown_tier_priced_as_opus
      [OF h, of exact "[''input_tokens'' \<mapsto> 2000000, ''cache_read'' \<mapsto> 1000000]"]
    by simp
qed

section \<open>Reading the log: malformed lines\<close>










section \<open>User prompt previews\<close>

lemma track_user_s_user_prompts:
  "track_user_s (JObj e) r = Some r' \<Longrightarrow> map_of e ''type'' = Some (JStr ''user'') \<Longrightarrow>
   user_prompts r' = user_prompts r @ (case user_text (JObj e) of None \<Rightarrow> [] | Some s \<Rightarrow> [take 100 s])"
  by (auto simp: track_user_s_def user_text_def get_def
      split: Option.bind_splits json.splits if_splits option.splits)

lemma user_text_not_user: "map_of e ''type'' \<noteq> Some (JStr ''user'') \<Longrightarrow> user_text (JObj e) = None"
  by (simp add: user_text_def)

lemma process_entry_s_user_prompts:
  assumes "process_entry_s entry st = Some st'"
  shows "user_prompts (fst st') =
         user_prompts (fst st) @ (case user_text entry of None \<Rightarrow> [] | Some s \<Rightarrow> [take 100 s])"
  using assms
  by (cases rule: process_entry_s_cases)
    (auto simp: track_user_s_user_prompts user_text_not_user track_assistant_s_frame)

lemma scan_s_user_prompts:
  "scan_s es st = Some st' \<Longrightarrow>
   user_prompts (fst st') = user_prompts (fst st) @ map (take 100) (List.map_filter user_text es)"
proof (induction es arbitrary: st)
  case Nil
  then show ?case by (simp add: List.map_filter_simps)
next
  case (Cons e es)
  then obtain st1 where 1: "process_entry_s e st = Some st1" "scan_s es st1 = Some st'"
    by (auto split: Option.bind_splits)
  from Cons.IH[OF 1(2)] process_entry_s_user_prompts[OF 1(1)] show ?case
    by (simp add: List.map_filter_simps split: option.splits)
qed

lemma analyze_s_user_prompts:
  "analyze_s es = Some r \<Longrightarrow> user_prompts r = map (take 100) (List.map_filter user_text es)"
  by (auto simp: analyze_s_def init_result_s_def split: Option.bind_splits dest!: scan_s_user_prompts)

lemma track_user_h_user_prompts:
  "track_user_h (JObj e) r = Some r' \<Longrightarrow> map_of e ''type'' = Some (JStr ''user'') \<Longrightarrow>
   map prompt_content (h_user_prompts r') =
   map prompt_content (h_user_prompts r) @
     (case user_text (JObj e) of None \<Rightarrow> [] | Some s \<Rightarrow> [take 200 s])"
  by (auto simp: track_user_h_def user_text_def get_def
      split: Option.bind_splits json.splits if_splits option.splits)

lemma process_entry_h_user_prompts:
  assumes "process_entry_h entry st = Some st'"
  shows "map prompt_content (h_user_prompts (fst st')) =
         map prompt_content (h_user_prompts (fst st)) @
           (case user_text entry of None \<Rightarrow> [] | Some s \<Rightarrow> [take 200 s])"
  using assms
  by (cases rule: process_entry_h_cases)
    (auto simp: track_user_h_user_prompts user_text_not_user track_assistant_h_frame)
lemma scan_h_user_prompts:
  "scan_h es st = Some st' \<Longrightarrow>
   map prompt_content (h_user_prompts (fst st')) =
   map prompt_content (h_user_prompts (fst st)) @ map (take 200) (List.map_filter user_text es)"
proof (induction es arbitrary: st)
  case Nil
  then show ?case by (simp add: List.map_filter_simps)
next
  case (Cons e es)
  then obtain st1 where 1: "process_entry_h e st = Some st1" "scan_h es st1 = Some st'"
    by (auto split: Option.bind_splits)
  from Cons.IH[OF 1(2)] process_entry_h_user_prompts[OF 1(1)] show ?case
    by (simp add: List.map_filter_simps split: option.splits)
qed

lemma analyze_h_user_prompts:
  "analyze_h es = Some r \<Longrightarrow>
   map prompt_content (h_user_prompts r) = map (take 200) (List.map_filter user_text es)"
  by (auto simp: analyze_h_def reconcile_h_def init_result_h_def split: Option.bind_splits
      dest!: scan_h_user_prompts categorize_frame)

text \<open>
  Claim C9, as amended. For every user-kind record whose message content is a non-empty
  plain string, the hook analyzer retains the first 200 characters of that string and
  the session analyzer retains the first 100 characters; in both the previews are kept
  in arrival order, one for each such record and none for any other record.
\<close>

theorem previews_in_arrival_order:
  "(analyze_h es = Some rh \<longrightarrow>
      map prompt_content (h_user_prompts rh) = map (take 200) (List.map_filter user_text es)) \<and>
   (analyze_s es = Some rs \<longrightarrow>
      user_prompts rs = map (take 100) (List.map_filter user_text es))"
  using analyze_h_user_prompts analyze_s_user_prompts by blast

theorem previews_in_arrival_order_witness:
  "analyze_h prompts_log \<noteq> None \<and> analyze_s prompts_log \<noteq> None \<and>
   map_option (\<lambda>r. map prompt_content (h_user_prompts r)) (analyze_h prompts_log) =
     Some [long_text, ''hello''] \<and>
   map_option user_prompts (analyze_s prompts_log) = Some [take 100 long_text, ''hello'']"
proof -
  have nh: "analyze_h prompts_log \<noteq> None" by code_simp
  have ns: "analyze_s prompts_log \<noteq> None" by code_simp
  from nh obtain rh where rh: "analyze_h prompts_log = Some rh" by auto
  from ns obtain rs where rs: "analyze_s prompts_log = Some rs" by auto
  have texts: "List.map_filter user_text prompts_log = [long_text, ''hello'']" by code_simp
  have short: "take 200 long_text = long_text" by (simp add: long_text_def)
  from previews_in_arrival_order [of prompts_log rh rs] rh rs texts short
  show ?thesis by simp
qed

text \<open>
  The claim as stated fails on the session analyzer: of a prompt of 150 characters it
  keeps 100, not the whole prompt that "up to the first 200 characters" would keep.
\<close>

theorem session_preview_is_100_chars:
  "map_option user_prompts (analyze_s [user_entry long_text]) = Some [take 100 long_text] \<and>
   map_option user_prompts (analyze_s [user_entry long_text]) \<noteq> Some [take 200 long_text]"
  by code_simp

section \<open>Category totals of the hook analyzer\<close>

lemma categorize_main_agent:
  "categorize calls r = Some r' \<Longrightarrow>
   m_api_calls (main_agent r') = m_api_calls (main_agent r) + int (length (primary_calls calls)) \<and>
   m_input_tokens (main_agent r') =
     m_input_tokens (main_agent r) + sum_list (map c_input_tokens (primary_calls calls)) \<and>
   m_output_tokens (main_agent r') =
     m_output_tokens (main_agent r) + sum_list (map c_output_tokens (primary_calls calls)) \<and>
   m_cache_creation (main_agent r') =
     m_cache_creation (main_agent r) + sum_list (map c_cache_creation (primary_calls calls)) \<and>
   m_cache_read (main_agent r') =
     m_cache_read (main_agent r) + sum_list (map c_cache_read (primary_calls calls))"
proof (induction calls r rule: categorize.induct)
  case (1 r)
  then show ?case by (simp add: primary_calls_def)
next
  case (2 req_id data rest r)
  then show ?case
    by (auto simp: Let_def primary_calls_def is_primary_def classify_def add_main_agent_def
        split: json.splits if_splits)
qed

lemma categorize_hooks_prompt:
  "categorize calls r = Some r' \<Longrightarrow>
   p_count (hooks_prompt r') = p_count (hooks_prompt r) + int (length (lightweight_calls calls)) \<and>
   p_input_tokens (hooks_prompt r') =
     p_input_tokens (hooks_prompt r) +
     sum_list (map (\<lambda>d. c_input_tokens d + c_cache_read d) (lightweight_calls calls)) \<and>
   p_output_tokens (hooks_prompt r') =
     p_output_tokens (hooks_prompt r) + sum_list (map c_output_tokens (lightweight_calls calls))"
proof (induction calls r rule: categorize.induct)
  case (1 r)
  then show ?case by (simp add: lightweight_calls_def)
next
  case (2 req_id data rest r)
  then show ?case
    by (auto simp: Let_def lightweight_calls_def is_lightweight_def classify_def add_prompt_hook_def
        split: json.splits if_splits)
qed

text \<open>
  Claim C4, as amended. The hook analyzer puts every reconciled call in exactly one of
  the two categories. For the calls classified primary it counts them and sums each of
  the four counters separately. For the calls classified lightweight it counts them,
  sums the output tokens, and sums input tokens and cache-read tokens together into one
  input total; it keeps no cache-creation total for them.
\<close>

theorem category_totals:
  assumes "reconcile_h es = Some (r0, seen)" and "analyze_h es = Some r"
  shows "m_api_calls (main_agent r) = int (length (primary_calls seen)) \<and>
         m_input_tokens (main_agent r) = sum_list (map c_input_tokens (primary_calls seen)) \<and>
         m_output_tokens (main_agent r) = sum_list (map c_output_tokens (primary_calls seen)) \<and>
         m_cache_creation (main_agent r) = sum_list (map c_cache_creation (primary_calls seen)) \<and>
         m_cache_read (main_agent r) = sum_list (map c_cache_read (primary_calls seen)) \<and>
         p_count (hooks_prompt r) = int (length (lightweight_calls seen)) \<and>
         p_input_tokens (hooks_prompt r) =
           sum_list (map (\<lambda>d. c_input_tokens d + c_cache_read d) (lightweight_calls seen)) \<and>
         p_output_tokens (hooks_prompt r) = sum_list (map c_output_tokens (lightweight_calls seen)) \<and>
         length (primary_calls seen) + length (lightweight_calls seen) = length seen"
proof -
  from assms have cat: "categorize seen r0 = Some r"
    by (simp add: analyze_h_def)
  from assms(1) have "main_agent r0 = main_agent (init_result_h (length es)) \<and>
      hooks_prompt r0 = hooks_prompt (init_result_h (length es))"
    using scan_h_frame[of es "(init_result_h (length es), [])" "(r0, seen)"]
    by (simp add: reconcile_h_def)
  then have zero: "m_api_calls (main_agent r0) = 0" "m_input_tokens (main_agent r0) = 0"
    "m_output_tokens (main_agent r0) = 0" "m_cache_creation (main_agent r0) = 0"
    "m_cache_read (main_agent r0) = 0" "p_count (hooks_prompt r0) = 0"
    "p_input_tokens (hooks_prompt r0) = 0" "p_output_tokens (hooks_prompt r0) = 0"
    by (simp_all add: init_result_h_def)
  have all_str: "length (primary_calls calls) + length (lightweight_calls calls) = length calls"
    if "categorize calls q = Some q'" for calls q q'
    using that
  proof (induction calls q rule: categorize.induct)
    case (1 r)
    then show ?case by (simp add: primary_calls_def lightweight_calls_def)
  next
    case (2 req_id data rest r)
    then show ?case
      by (auto simp: Let_def primary_calls_def lightweight_calls_def is_primary_def
          is_lightweight_def classify_def split: json.splits if_splits)
  qed
  from categorize_main_agent[OF cat] categorize_hooks_prompt[OF cat] all_str[OF cat] zero
  show ?thesis by simp
qed


theorem category_totals_witness:
  "reconcile_h mixed_log \<noteq> None \<and>
   map_option (\<lambda>r. [m_api_calls (main_agent r), m_input_tokens (main_agent r),
                     m_output_tokens (main_agent r), m_cache_creation (main_agent r),
                     m_cache_read (main_agent r)]) (analyze_h mixed_log) =
     Some [1, 11, 25, 30, 40] \<and>
   map_option (\<lambda>r. [p_count (hooks_prompt r), p_input_tokens (hooks_prompt r),
                     p_output_tokens (hooks_prompt r)]) (analyze_h mixed_log) =
     Some [1, 10, 2]"
proof -
  have calls: "map_option snd (reconcile_h mixed_log) =
      Some [(KStr ''req_h'',
             \<lparr>c_model = JStr ''claude-3-5-haiku-20241022'', c_input_tokens = 3,
              c_output_tokens = 2, c_cache_creation = 4, c_cache_read = 7\<rparr>),
            (KStr ''req_o'',
             \<lparr>c_model = JStr ''claude-3-opus-20240229'', c_input_tokens = 11,
              c_output_tokens = 25, c_cache_creation = 30, c_cache_read = 40\<rparr>)]"
    by code_simp
  then obtain r0 where rec: "reconcile_h mixed_log =
      Some (r0, [(KStr ''req_h'',
             \<lparr>c_model = JStr ''claude-3-5-haiku-20241022'', c_input_tokens = 3,
              c_output_tokens = 2, c_cache_creation = 4, c_cache_read = 7\<rparr>),
            (KStr ''req_o'',
             \<lparr>c_model = JStr ''claude-3-opus-20240229'', c_input_tokens = 11,
              c_output_tokens = 25, c_cache_creation = 30, c_cache_read = 40\<rparr>)])"
    by (cases "reconcile_h mixed_log") auto
  have "analyze_h mixed_log \<noteq> None" by code_simp
  then obtain r where an: "analyze_h mixed_log = Some r" by auto
  have hk: "is_hook ''claude-3-5-haiku-20241022''" by code_simp
  have op: "\<not> is_hook ''claude-3-opus-20240229''" by code_simp
  from category_totals [OF rec an] rec an hk op show ?thesis
    by (simp add: primary_calls_def lightweight_calls_def is_primary_def is_lightweight_def
        classify_def)
qed

text \<open>
  The claim as stated fails for the lightweight category: for one Haiku call reporting
  3 input and 7 cache-read tokens the lightweight input total is 10, while the sum of
  the input counter over the lightweight calls is 3.
\<close>

theorem lightweight_input_includes_cache_read:
  "map_option (p_input_tokens \<circ> hooks_prompt) (analyze_h haiku_log) = Some 10 \<and>
   map_option (sum_list \<circ> map c_input_tokens \<circ> lightweight_calls \<circ> snd) (reconcile_h haiku_log)
     = Some 3"
  by code_simp

section \<open>Reconciliation is a running maximum\<close>

text \<open>
  Claim C1. For every request id and each of the four counters (input, output, cache
  creation and cache read tokens), the value the session analyzer keeps in
  \<^verbatim>\<open>by_request\<close>, and the value the hook analyzer keeps in \<^verbatim>\<open>seen_request_ids\<close>
  (for the ids it tracks), is the running maximum, from the initial 0, of the values
  reported by the snapshots seen for that id; that is the greatest of 0 and those
  values. A snapshot reporting no more than the stored value leaves the stored value and
  the session total as they are. Snapshots 5, 5, 12, 8 of one request reconcile to 12 in
  both analyzers, and the session total is 12.
\<close>

theorem reconciled_value_is_running_max:
  "(analyze_s es = Some r \<longrightarrow>
      (\<forall>k. \<forall>c \<in> {''input_tokens'', ''output_tokens'',
                   ''cache_creation_input_tokens'', ''cache_read_input_tokens''}.
         req_data_of (by_request r) k c =
         running_max (map (\<lambda>u. reported u c) (snapshots_of k es)))) \<and>
   (reconcile_h es = Some (rh, seen) \<longrightarrow>
      (\<forall>k m. key_truthy k \<longrightarrow>
         c_input_tokens (current_of seen k m) =
           running_max (map (\<lambda>u. reported u ''input_tokens'') (snapshots_of k es)) \<and>
         c_output_tokens (current_of seen k m) =
           running_max (map (\<lambda>u. reported u ''output_tokens'') (snapshots_of k es)) \<and>
         c_cache_creation (current_of seen k m) =
           running_max (map (\<lambda>u. reported u ''cache_creation_input_tokens'') (snapshots_of k es)) \<and>
         c_cache_read (current_of seen k m) =
           running_max (map (\<lambda>u. reported u ''cache_read_input_tokens'') (snapshots_of k es)))) \<and>
   running_max vs = Max (insert 0 (set vs)) \<and>
   (process_entry_s entry st = Some st' \<and> snapshot entry = Some (rid, usage) \<and>
    py_hash rid = Some k0 \<and> reported usage c0 \<le> req_data_of (by_request (fst st)) k0 c0 \<longrightarrow>
      req_data_of (by_request (fst st')) k0 c0 = req_data_of (by_request (fst st)) k0 c0 \<and>
      totals (fst st') c0 = totals (fst st) c0) \<and>
   (process_entry_h entry sh = Some sh' \<and> snapshot entry = Some (rid, usage) \<and>
    py_hash rid = Some k0 \<longrightarrow>
      (reported usage ''input_tokens'' \<le> c_input_tokens (current_of (snd sh) k0 m0) \<longrightarrow>
         c_input_tokens (current_of (snd sh') k0 m0) = c_input_tokens (current_of (snd sh) k0 m0)) \<and>
      (reported usage ''output_tokens'' \<le> c_output_tokens (current_of (snd sh) k0 m0) \<longrightarrow>
         c_output_tokens (current_of (snd sh') k0 m0) = c_output_tokens (current_of (snd sh) k0 m0)) \<and>
      (reported usage ''cache_creation_input_tokens''
           \<le> c_cache_creation (current_of (snd sh) k0 m0) \<longrightarrow>
         c_cache_creation (current_of (snd sh') k0 m0) = c_cache_creation (current_of (snd sh) k0 m0)) \<and>
      (reported usage ''cache_read_input_tokens'' \<le> c_cache_read (current_of (snd sh) k0 m0) \<longrightarrow>
         c_cache_read (current_of (snd sh') k0 m0) = c_cache_read (current_of (snd sh) k0 m0))) \<and>
   map_option (\<lambda>r. req_data_of (by_request r) (KStr ''req_1'') ''input_tokens'')
     (analyze_s resend_log) = Some 12 \<and>
   map_option (\<lambda>r. totals r ''input_tokens'') (analyze_s resend_log) = Some 12 \<and>
   map_option (\<lambda>st. c_input_tokens (current_of (snd st) (KStr ''req_1'') JNull))
     (reconcile_h resend_log) = Some 12"
proof -
  have s: "analyze_s es = Some r \<longrightarrow>
      (\<forall>k. \<forall>c \<in> {''input_tokens'', ''output_tokens'',
                   ''cache_creation_input_tokens'', ''cache_read_input_tokens''}.
         req_data_of (by_request r) k c =
         running_max (map (\<lambda>u. reported u c) (snapshots_of k es)))"
    using analyze_s_running_max counter_name_cases by blast
  have h: "reconcile_h es = Some (rh, seen) \<longrightarrow>
      (\<forall>k m. key_truthy k \<longrightarrow>
         c_input_tokens (current_of seen k m) =
           running_max (map (\<lambda>u. reported u ''input_tokens'') (snapshots_of k es)) \<and>
         c_output_tokens (current_of seen k m) =
           running_max (map (\<lambda>u. reported u ''output_tokens'') (snapshots_of k es)) \<and>
         c_cache_creation (current_of seen k m) =
           running_max (map (\<lambda>u. reported u ''cache_creation_input_tokens'') (snapshots_of k es)) \<and>
         c_cache_read (current_of seen k m) =
           running_max (map (\<lambda>u. reported u ''cache_read_input_tokens'') (snapshots_of k es)))"
  proof (intro impI allI)
    fix k m
    assume a: "reconcile_h es = Some (rh, seen)" and kt: "key_truthy k"
    note f = reconcile_h_running_max[OF a _ kt, of _ m]
    from f[OF usage_keys_mem(1)] f[OF usage_keys_mem(2)] f[OF usage_keys_mem(3)]
      f[OF usage_keys_mem(4)]
    show "c_input_tokens (current_of seen k m) =
           running_max (map (\<lambda>u. reported u ''input_tokens'') (snapshots_of k es)) \<and>
         c_output_tokens (current_of seen k m) =
           running_max (map (\<lambda>u. reported u ''output_tokens'') (snapshots_of k es)) \<and>
         c_cache_creation (current_of seen k m) =
           running_max (map (\<lambda>u. reported u ''cache_creation_input_tokens'') (snapshots_of k es)) \<and>
         c_cache_read (current_of seen k m) =
           running_max (map (\<lambda>u. reported u ''cache_read_input_tokens'') (snapshots_of k es))"
      by (simp add: counter_h_def)
  qed
  have noop_s: "process_entry_s entry st = Some st' \<and> snapshot entry = Some (rid, usage) \<and>
    py_hash rid = Some k0 \<and> reported usage c0 \<le> req_data_of (by_request (fst st)) k0 c0 \<longrightarrow>
      req_data_of (by_request (fst st')) k0 c0 = req_data_of (by_request (fst st)) k0 c0 \<and>
      totals (fst st') c0 = totals (fst st) c0"
  proof (intro impI, elim conjE)
    assume a: "process_entry_s entry st = Some st'" "snapshot entry = Some (rid, usage)"
      "py_hash rid = Some k0" "reported usage c0 \<le> req_data_of (by_request (fst st)) k0 c0"
    from process_entry_s_effect(1)[OF a(1), of k0 c0] a(2,3,4)
    have 1: "req_data_of (by_request (fst st')) k0 c0 = req_data_of (by_request (fst st)) k0 c0"
      by auto
    from process_entry_s_effect(2)[OF a(1), of c0] a(2,3) 1
    have "totals (fst st') c0 = totals (fst st) c0" by simp
    with 1 show "req_data_of (by_request (fst st')) k0 c0 = req_data_of (by_request (fst st)) k0 c0 \<and>
      totals (fst st') c0 = totals (fst st) c0" by simp
  qed
  have noop_h: "process_entry_h entry sh = Some sh' \<and> snapshot entry = Some (rid, usage) \<and>
    py_hash rid = Some k0 \<longrightarrow>
      (reported usage ''input_tokens'' \<le> c_input_tokens (current_of (snd sh) k0 m0) \<longrightarrow>
         c_input_tokens (current_of (snd sh') k0 m0) = c_input_tokens (current_of (snd sh) k0 m0)) \<and>
      (reported usage ''output_tokens'' \<le> c_output_tokens (current_of (snd sh) k0 m0) \<longrightarrow>
         c_output_tokens (current_of (snd sh') k0 m0) = c_output_tokens (current_of (snd sh) k0 m0)) \<and>
      (reported usage ''cache_creation_input_tokens''
           \<le> c_cache_creation (current_of (snd sh) k0 m0) \<longrightarrow>
         c_cache_creation (current_of (snd sh') k0 m0) = c_cache_creation (current_of (snd sh) k0 m0)) \<and>
      (reported usage ''cache_read_input_tokens'' \<le> c_cache_read (current_of (snd sh) k0 m0) \<longrightarrow>
         c_cache_read (current_of (snd sh') k0 m0) = c_cache_read (current_of (snd sh) k0 m0))"
  proof (intro impI, elim conjE)
    assume a: "process_entry_h entry sh = Some sh'" "snapshot entry = Some (rid, usage)"
      "py_hash rid = Some k0"
    have keep: "counter_h c (current_of (snd sh') k0 m0) = counter_h c (current_of (snd sh) k0 m0)"
      if "c \<in> set usage_keys" "reported usage c \<le> counter_h c (current_of (snd sh) k0 m0)" for c
      using process_entry_h_effect(1)[OF a(1) that(1), of k0 m0] a(2,3) that(2) by auto
    from keep[OF usage_keys_mem(1)] keep[OF usage_keys_mem(2)] keep[OF usage_keys_mem(3)]
      keep[OF usage_keys_mem(4)]
    show "(reported usage ''input_tokens'' \<le> c_input_tokens (current_of (snd sh) k0 m0) \<longrightarrow>
         c_input_tokens (current_of (snd sh') k0 m0) = c_input_tokens (current_of (snd sh) k0 m0)) \<and>
      (reported usage ''output_tokens'' \<le> c_output_tokens (current_of (snd sh) k0 m0) \<longrightarrow>
         c_output_tokens (current_of (snd sh') k0 m0) = c_output_tokens (current_of (snd sh) k0 m0)) \<and>
      (reported usage ''cache_creation_input_tokens''
           \<le> c_cache_creation (current_of (snd sh) k0 m0) \<longrightarrow>
         c_cache_creation (current_of (snd sh') k0 m0) = c_cache_creation (current_of (snd sh) k0 m0)) \<and>
      (reported usage ''cache_read_input_tokens'' \<le> c_cache_read (current_of (snd sh) k0 m0) \<longrightarrow>
         c_cache_read (current_of (snd sh') k0 m0) = c_cache_read (current_of (snd sh) k0 m0))"
      by (simp add: counter_h_def)
  qed
  have e1: "map_option (\<lambda>r. req_data_of (by_request r) (KStr ''req_1'') ''input_tokens'')
     (analyze_s resend_log) = Some 12" by code_simp
  have e2: "map_option (\<lambda>r. totals r ''input_tokens'') (analyze_s resend_log) = Some 12"
    by code_simp
  have e3: "map_option (\<lambda>st. c_input_tokens (current_of (snd st) (KStr ''req_1'') JNull))
     (reconcile_h resend_log) = Some 12" by code_simp
  from s h running_max_Max noop_s noop_h e1 e2 e3 show ?thesis by (intro conjI)
qed

theorem reconciled_value_is_running_max_witness:
  "analyze_s resend_all_log \<noteq> None \<and> reconcile_h resend_all_log \<noteq> None \<and>
   map (\<lambda>c. map (\<lambda>u. reported u c) (snapshots_of (KStr ''req_1'') resend_all_log))
     [''input_tokens'', ''output_tokens'', ''cache_creation_input_tokens'',
      ''cache_read_input_tokens''] =
     [[5, 5, 12, 8], [1, 3, 2, 4], [7, 7, 0, 7], [2, 9, 9, 1]] \<and>
   map_option (\<lambda>r. map (req_data_of (by_request r) (KStr ''req_1''))
       [''input_tokens'', ''output_tokens'', ''cache_creation_input_tokens'',
        ''cache_read_input_tokens'']) (analyze_s resend_all_log) =
     Some [running_max [5, 5, 12, 8], running_max [1, 3, 2, 4],
           running_max [7, 7, 0, 7], running_max [2, 9, 9, 1]] \<and>
   map_option (\<lambda>st. [c_input_tokens (current_of (snd st) (KStr ''req_1'') JNull),
                      c_output_tokens (current_of (snd st) (KStr ''req_1'') JNull),
                      c_cache_creation (current_of (snd st) (KStr ''req_1'') JNull),
                      c_cache_read (current_of (snd st) (KStr ''req_1'') JNull)])
     (reconcile_h resend_all_log) =
     Some [running_max [5, 5, 12, 8], running_max [1, 3, 2, 4],
           running_max [7, 7, 0, 7], running_max [2, 9, 9, 1]] \<and>
   [running_max [5, 5, 12, 8], running_max [1, 3, 2, 4],
    running_max [7, 7, 0, 7], running_max [2, 9, 9, 1]] = [12, 4, 7, 9]"
proof -
  have ns: "analyze_s resend_all_log \<noteq> None" by code_simp
  have nh: "reconcile_h resend_all_log \<noteq> None" by code_simp
  from ns obtain r where r: "analyze_s resend_all_log = Some r" by auto
  from nh obtain rh seen where h: "reconcile_h resend_all_log = Some (rh, seen)" by auto
  have v1: "map (\<lambda>u. reported u ''input_tokens'') (snapshots_of (KStr ''req_1'') resend_all_log)
              = [5, 5, 12, 8]" by code_simp
  have v2: "map (\<lambda>u. reported u ''output_tokens'') (snapshots_of (KStr ''req_1'') resend_all_log)
              = [1, 3, 2, 4]" by code_simp
  have v3: "map (\<lambda>u. reported u ''cache_creation_input_tokens'')
              (snapshots_of (KStr ''req_1'') resend_all_log) = [7, 7, 0, 7]" by code_simp
  have v4: "map (\<lambda>u. reported u ''cache_read_input_tokens'')
              (snapshots_of (KStr ''req_1'') resend_all_log) = [2, 9, 9, 1]" by code_simp
  have rm: "[running_max [5, 5, 12, 8], running_max [1, 3, 2, 4],
    running_max [7, 7, 0, 7], running_max [2, 9, 9, 1]] = [12, 4, 7, 9]"
    by (simp add: running_max_def)
  have kt: "key_truthy (KStr ''req_1'')" by simp
  note t = reconciled_value_is_running_max
    [where es = resend_all_log and r = r and rh = rh and seen = seen]
  note ts = t[THEN conjunct1, THEN mp, OF r, THEN spec, of "KStr ''req_1''"]
  have a1: "req_data_of (by_request r) (KStr ''req_1'') ''input_tokens'' = running_max [5, 5, 12, 8]"
    using ts[THEN bspec, of "''input_tokens''"] v1 by simp
  have a2: "req_data_of (by_request r) (KStr ''req_1'') ''output_tokens'' = running_max [1, 3, 2, 4]"
    using ts[THEN bspec, of "''output_tokens''"] v2 by simp
  have a3: "req_data_of (by_request r) (KStr ''req_1'') ''cache_creation_input_tokens''
              = running_max [7, 7, 0, 7]"
    using ts[THEN bspec, of "''cache_creation_input_tokens''"] v3 by simp
  have a4: "req_data_of (by_request r) (KStr ''req_1'') ''cache_read_input_tokens''
              = running_max [2, 9, 9, 1]"
    using ts[THEN bspec, of "''cache_read_input_tokens''"] v4 by simp
  note th = t[THEN conjunct2, THEN conjunct1, THEN mp, OF h, THEN spec, THEN spec, THEN mp, OF kt,
      of JNull]
  from th v1 v2 v3 v4
  have b: "c_input_tokens (current_of seen (KStr ''req_1'') JNull) = running_max [5, 5, 12, 8]"
    "c_output_tokens (current_of seen (KStr ''req_1'') JNull) = running_max [1, 3, 2, 4]"
    "c_cache_creation (current_of seen (KStr ''req_1'') JNull) = running_max [7, 7, 0, 7]"
    "c_cache_read (current_of seen (KStr ''req_1'') JNull) = running_max [2, 9, 9, 1]"
    by simp_all
  from ns nh v1 v2 v3 v4 a1 a2 a3 a4 b rm r h show ?thesis by simp
qed

section \<open>Counters never decrease\<close>

lemma step_s_stored:
  assumes a: "process_entry_s entry st = Some st'" and d: "map_of (by_request (fst st)) k = Some d"
  shows "\<exists>d'. map_of (by_request (fst st')) k = Some d' \<and> (\<forall>c. d c \<le> d' c)"
proof -
  from d have "k \<in> set (map fst (by_request (fst st)))" by (rule stored_key)
  with process_entry_s_mono(3)[OF a] have "k \<in> set (map fst (by_request (fst st')))" by blast
  then have "\<exists>d'. map_of (by_request (fst st')) k = Some d'" by (rule key_stored)
  then obtain d' where d': "map_of (by_request (fst st')) k = Some d'" ..
  have 1: "req_data_of (by_request (fst st)) k = d" using d by (rule req_data_of_stored)
  have 2: "req_data_of (by_request (fst st')) k = d'" using d' by (rule req_data_of_stored)
  have "d c \<le> d' c" for c
    using process_entry_s_mono(1)[OF a, of k c] unfolding 1 2 .
  with d' show ?thesis by blast
qed

lemma step_h_stored:
  assumes a: "process_entry_h entry sh = Some sh'" and d: "map_of (snd sh) k = Some d"
  shows "\<exists>d'. map_of (snd sh') k = Some d' \<and>
            c_input_tokens d \<le> c_input_tokens d' \<and> c_output_tokens d \<le> c_output_tokens d' \<and>
            c_cache_creation d \<le> c_cache_creation d' \<and> c_cache_read d \<le> c_cache_read d'"
proof -
  from d have "k \<in> set (map fst (snd sh))" by (rule stored_key)
  with process_entry_h_mono(2)[OF a] have "k \<in> set (map fst (snd sh'))" by blast
  then have "\<exists>d'. map_of (snd sh') k = Some d'" by (rule key_stored)
  then obtain d' where d': "map_of (snd sh') k = Some d'" ..
  have 1: "current_of (snd sh) k JNull = d" using d by (rule current_of_stored)
  have 2: "current_of (snd sh') k JNull = d'" using d' by (rule current_of_stored)
  have le: "counter_h c d \<le> counter_h c d'" if "c \<in> set usage_keys" for c
    using process_entry_h_mono(1)[OF a that, of k JNull] unfolding 1 2 .
  from le[OF usage_keys_mem(1)] have i: "c_input_tokens d \<le> c_input_tokens d'"
    by (simp add: counter_h_def)
  from le[OF usage_keys_mem(2)] have out: "c_output_tokens d \<le> c_output_tokens d'"
    by (simp add: counter_h_def)
  from le[OF usage_keys_mem(3)] have cc: "c_cache_creation d \<le> c_cache_creation d'"
    by (simp add: counter_h_def)
  from le[OF usage_keys_mem(4)] have cr: "c_cache_read d \<le> c_cache_read d'"
    by (simp add: counter_h_def)
  from d' i out cc cr show ?thesis by blast
qed


lemma analyze_s_nonneg:
  assumes a: "analyze_s es = Some r"
  shows "0 \<le> req_data_of (by_request r) k c" and "0 \<le> totals r c"
proof -
  from a obtain st1 where s: "scan_s es (init_result_s (length es), {}) = Some st1" "r = fst st1"
    by (auto simp: analyze_s_def split: Option.bind_splits)
  from scan_s_mono[OF s(1), of k c] s(2)
  show "0 \<le> req_data_of (by_request r) k c" and "0 \<le> totals r c"
    by (simp_all add: init_result_s_def req_data_of_def)
qed

lemma reconcile_h_nonneg:
  assumes a: "reconcile_h es = Some (rh, seen)" and d: "map_of seen k = Some d"
  shows "0 \<le> c_input_tokens d \<and> 0 \<le> c_output_tokens d \<and>
         0 \<le> c_cache_creation d \<and> 0 \<le> c_cache_read d"
proof -
  from a have s: "scan_h es (init_result_h (length es), []) = Some (rh, seen)"
    by (simp add: reconcile_h_def)
  have 1: "current_of seen k JNull = d" using d by (rule current_of_stored)
  have le: "0 \<le> counter_h c d" if "c \<in> set usage_keys" for c
  proof -
    from scan_h_mono[OF s that, of k JNull]
    have "counter_h c (current_of [] k JNull) \<le> counter_h c (current_of seen k JNull)" by simp
    then show ?thesis by (simp only: counter_h_current_of_Nil 1)
  qed
  from le[OF usage_keys_mem(1)] have i: "0 \<le> c_input_tokens d" by (simp add: counter_h_def)
  from le[OF usage_keys_mem(2)] have out: "0 \<le> c_output_tokens d" by (simp add: counter_h_def)
  from le[OF usage_keys_mem(3)] have cc: "0 \<le> c_cache_creation d" by (simp add: counter_h_def)
  from le[OF usage_keys_mem(4)] have cr: "0 \<le> c_cache_read d" by (simp add: counter_h_def)
  from i out cc cr show ?thesis by simp
qed

text \<open>
  Claim C10. Processing a record never lowers accumulated state. In the session analyzer
  every request id stored before the record is still stored after it with each counter
  at least as large, and every running total is at least as large. In the hook analyzer
  every request id stored before the record is still stored after it with each of the
  four counters at least as large. Starting from zero, no stored counter and no total of
  a finished scan is negative.
\<close>

theorem counters_never_decrease:
  "(process_entry_s entry st = Some st' \<longrightarrow>
      (\<forall>k d. map_of (by_request (fst st)) k = Some d \<longrightarrow>
         (\<exists>d'. map_of (by_request (fst st')) k = Some d' \<and> (\<forall>c. d c \<le> d' c))) \<and>
      (\<forall>c. totals (fst st) c \<le> totals (fst st') c)) \<and>
   (process_entry_h entry sh = Some sh' \<longrightarrow>
      (\<forall>k d. map_of (snd sh) k = Some d \<longrightarrow>
         (\<exists>d'. map_of (snd sh') k = Some d' \<and>
            c_input_tokens d \<le> c_input_tokens d' \<and> c_output_tokens d \<le> c_output_tokens d' \<and>
            c_cache_creation d \<le> c_cache_creation d' \<and> c_cache_read d \<le> c_cache_read d'))) \<and>
   (analyze_s es = Some r \<longrightarrow>
      (\<forall>k d. map_of (by_request r) k = Some d \<longrightarrow> (\<forall>c. 0 \<le> d c)) \<and> (\<forall>c. 0 \<le> totals r c)) \<and>
   (reconcile_h es = Some (rh, seen) \<longrightarrow>
      (\<forall>k d. map_of seen k = Some d \<longrightarrow>
         0 \<le> c_input_tokens d \<and> 0 \<le> c_output_tokens d \<and>
         0 \<le> c_cache_creation d \<and> 0 \<le> c_cache_read d))"
proof -
  have A: "process_entry_s entry st = Some st' \<longrightarrow>
      (\<forall>k d. map_of (by_request (fst st)) k = Some d \<longrightarrow>
         (\<exists>d'. map_of (by_request (fst st')) k = Some d' \<and> (\<forall>c. d c \<le> d' c))) \<and>
      (\<forall>c. totals (fst st) c \<le> totals (fst st') c)"
  proof
    assume a: "process_entry_s entry st = Some st'"
    have 1: "\<forall>k d. map_of (by_request (fst st)) k = Some d \<longrightarrow>
         (\<exists>d'. map_of (by_request (fst st')) k = Some d' \<and> (\<forall>c. d c \<le> d' c))"
      using step_s_stored[OF a] by blast
    have 2: "\<forall>c. totals (fst st) c \<le> totals (fst st') c"
      using process_entry_s_mono(2)[OF a] by blast
    from 1 2 show "(\<forall>k d. map_of (by_request (fst st)) k = Some d \<longrightarrow>
         (\<exists>d'. map_of (by_request (fst st')) k = Some d' \<and> (\<forall>c. d c \<le> d' c))) \<and>
      (\<forall>c. totals (fst st) c \<le> totals (fst st') c)" by (rule conjI)
  qed
  have B: "process_entry_h entry sh = Some sh' \<longrightarrow>
      (\<forall>k d. map_of (snd sh) k = Some d \<longrightarrow>
         (\<exists>d'. map_of (snd sh') k = Some d' \<and>
            c_input_tokens d \<le> c_input_tokens d' \<and> c_output_tokens d \<le> c_output_tokens d' \<and>
            c_cache_creation d \<le> c_cache_creation d' \<and> c_cache_read d \<le> c_cache_read d'))"
    using step_h_stored by blast
  have C: "analyze_s es = Some r \<longrightarrow>
      (\<forall>k d. map_of (by_request r) k = Some d \<longrightarrow> (\<forall>c. 0 \<le> d c)) \<and> (\<forall>c. 0 \<le> totals r c)"
  proof
    assume a: "analyze_s es = Some r"
    have 1: "\<forall>k d. map_of (by_request r) k = Some d \<longrightarrow> (\<forall>c. 0 \<le> d c)"
    proof (intro allI impI)
      fix k d c
      assume d: "map_of (by_request r) k = Some d"
      have e: "req_data_of (by_request r) k = d" using d by (rule req_data_of_stored)
      from analyze_s_nonneg(1)[OF a, of k c] show "0 \<le> d c" unfolding e .
    qed
    have 2: "\<forall>c. 0 \<le> totals r c" using analyze_s_nonneg(2)[OF a] by blast
    from 1 2 show "(\<forall>k d. map_of (by_request r) k = Some d \<longrightarrow> (\<forall>c. 0 \<le> d c)) \<and>
      (\<forall>c. 0 \<le> totals r c)" by (rule conjI)
  qed
  have D: "reconcile_h es = Some (rh, seen) \<longrightarrow>
      (\<forall>k d. map_of seen k = Some d \<longrightarrow>
         0 \<le> c_input_tokens d \<and> 0 \<le> c_output_tokens d \<and>
         0 \<le> c_cache_creation d \<and> 0 \<le> c_cache_read d)"
    using reconcile_h_nonneg by blast
  show ?thesis by (rule conjI[OF A conjI[OF B conjI[OF C D]]])
qed


theorem counters_never_decrease_witness:
  "(case process_entry_s lower_entry stored_state_s of
      None \<Rightarrow> False
    | Some st' \<Rightarrow>
        12 \<le> req_data_of (by_request (fst st')) (KStr ''req_1'') ''input_tokens'' \<and>
        12 \<le> totals (fst st') ''input_tokens'') \<and>
   (case process_entry_h lower_entry stored_state_h of
      None \<Rightarrow> False
    | Some sh' \<Rightarrow> 12 \<le> c_input_tokens (current_of (snd sh') (KStr ''req_1'') JNull)) \<and>
   (case analyze_s resend_log of
      None \<Rightarrow> False
    | Some r \<Rightarrow> 0 \<le> totals r ''output_tokens'' \<and>
               0 \<le> req_data_of (by_request r) (KStr ''req_1'') ''output_tokens'') \<and>
   (case reconcile_h resend_log of
      None \<Rightarrow> False
    | Some st \<Rightarrow> 0 \<le> c_output_tokens (current_of (snd st) (KStr ''req_1'') JNull))"
proof -
  have "process_entry_s lower_entry stored_state_s \<noteq> None" by code_simp
  then obtain st' where s: "process_entry_s lower_entry stored_state_s = Some st'" by auto
  have "process_entry_h lower_entry stored_state_h \<noteq> None" by code_simp
  then obtain sh' where h: "process_entry_h lower_entry stored_state_h = Some sh'" by auto
  have "analyze_s resend_log \<noteq> None" by code_simp
  then obtain r where r: "analyze_s resend_log = Some r" by auto
  have "reconcile_h resend_log \<noteq> None" by code_simp
  then obtain rh seen where rh: "reconcile_h resend_log = Some (rh, seen)" by auto
  note t = counters_never_decrease [where entry = lower_entry and st = stored_state_s
      and st' = st' and sh = stored_state_h and sh' = sh' and es = resend_log and r = r
      and rh = rh and seen = seen]
  have ds: "map_of (by_request (fst stored_state_s)) (KStr ''req_1'')
              = Some ((\<lambda>c. 0)(''input_tokens'' := 12))"
    by (simp add: stored_state_s_def)
  have dh: "map_of (snd stored_state_h) (KStr ''req_1'') =
      Some \<lparr> c_model = JStr ''claude-3-opus-20240229'', c_input_tokens = 12, c_output_tokens = 0,
          c_cache_creation = 0, c_cache_read = 0 \<rparr>"
    by (simp add: stored_state_h_def)
  note A = t[THEN conjunct1, THEN mp, OF s]
  from A[THEN conjunct1, THEN spec, THEN spec, THEN mp, OF ds]
  obtain d' where d': "map_of (by_request (fst st')) (KStr ''req_1'') = Some d'"
    and le: "\<forall>c. ((\<lambda>c. 0)(''input_tokens'' := 12)) c \<le> d' c"
    by (elim exE conjE)
  from le[THEN spec, of "''input_tokens''"] have "(12::int) \<le> d' ''input_tokens''" by simp
  with d' have 1: "12 \<le> req_data_of (by_request (fst st')) (KStr ''req_1'') ''input_tokens''"
    by (simp add: req_data_of_def)
  from A[THEN conjunct2, THEN spec, of "''input_tokens''"]
  have 2: "12 \<le> totals (fst st') ''input_tokens''"
    by (simp add: stored_state_s_def)
  note B = t[THEN conjunct2, THEN conjunct1, THEN mp, OF h]
  from B[THEN spec, THEN spec, THEN mp, OF dh]
  obtain dh' where dh': "map_of (snd sh') (KStr ''req_1'') = Some dh'"
    and leh: "12 \<le> c_input_tokens dh'"
    by (elim exE conjE) simp
  from dh' leh have 3: "12 \<le> c_input_tokens (current_of (snd sh') (KStr ''req_1'') JNull)"
    by (simp add: current_of_def)
  note C = t[THEN conjunct2, THEN conjunct2, THEN conjunct1, THEN mp, OF r]
  from C[THEN conjunct2, THEN spec, of "''output_tokens''"]
  have 4: "0 \<le> totals r ''output_tokens''" .
  have 5: "0 \<le> req_data_of (by_request r) (KStr ''req_1'') ''output_tokens''"
  proof (cases "map_of (by_request r) (KStr ''req_1'')")
    case None
    then show ?thesis by (simp add: req_data_of_def)
  next
    case (Some d)
    from C[THEN conjunct1, THEN spec, THEN spec, THEN mp, OF Some, THEN spec, of "''output_tokens''"]
      Some show ?thesis by (simp add: req_data_of_def)
  qed
  note D = t[THEN conjunct2, THEN conjunct2, THEN conjunct2, THEN mp, OF rh]
  have 6: "0 \<le> c_output_tokens (current_of seen (KStr ''req_1'') JNull)"
  proof (cases "map_of seen (KStr ''req_1'')")
    case None
    then show ?thesis by (simp add: current_of_def)
  next
    case (Some d)
    from D[THEN spec, THEN spec, THEN mp, OF Some] Some show ?thesis
      by (simp add: current_of_def)
  qed
  from s h r rh 1 2 3 4 5 6 show ?thesis by simp
qed

section \<open>The two reconciliation strategies\<close>

lemma sum_list_same:
  fixes f g :: "'a \<Rightarrow> int"
  assumes "\<And>y. y \<in> set xs \<Longrightarrow> g y = f y"
  shows "sum_list (map g xs) = sum_list (map f xs)"
  using assms by (induction xs) auto

lemma sum_list_change_one:
  fixes f g :: "'a \<Rightarrow> int"
  assumes "distinct xs" and "x \<in> set xs" and "\<And>y. y \<noteq> x \<Longrightarrow> g y = f y"
  shows "sum_list (map g xs) = sum_list (map f xs) + (g x - f x)"
  using assms(1,2)
proof (induction xs)
  case Nil
  then show ?case by simp
next
  case (Cons a xs)
  show ?case
  proof (cases "a = x")
    case True
    with Cons.prems have "x \<notin> set xs" by simp
    then have "g y = f y" if "y \<in> set xs" for y using that assms(3)[of y] by blast
    then have "sum_list (map g xs) = sum_list (map f xs)" by (rule sum_list_same)
    with True show ?thesis by simp
  next
    case False
    with Cons.prems have "distinct xs" "x \<in> set xs" by auto
    from Cons.IH[OF this] False assms(3)[of a] show ?thesis by simp
  qed
qed

lemma sum_list_partition:
  fixes f :: "'a \<Rightarrow> int"
  shows "sum_list (map f xs) =
         sum_list (map f (filter P xs)) + sum_list (map f (filter (\<lambda>x. \<not> P x) xs))"
  by (induction xs) auto

lemma req_data_of_absent: "k \<notin> set (map fst al) \<Longrightarrow> req_data_of al k c = 0"
proof -
  assume "k \<notin> set (map fst al)"
  then have "map_of al k = None" by (simp add: map_of_eq_None_iff)
  then show ?thesis by (simp add: req_data_of_def)
qed


text \<open>The session analyzer: each total is the sum of the stored values over the request ids.\<close>

lemma process_entry_s_sum:
  assumes a: "process_entry_s entry st = Some st'"
    and dist: "distinct (map fst (by_request (fst st)))"
    and inv: "totals (fst st) c =
              sum_list (map (\<lambda>k. req_data_of (by_request (fst st)) k c) (map fst (by_request (fst st))))"
  shows "distinct (map fst (by_request (fst st')))"
    and "totals (fst st') c =
         sum_list (map (\<lambda>k. req_data_of (by_request (fst st')) k c) (map fst (by_request (fst st'))))"
proof -
  let ?keys = "map fst (by_request (fst st))"
  let ?keys' = "map fst (by_request (fst st'))"
  let ?f = "\<lambda>k. req_data_of (by_request (fst st)) k c"
  let ?g = "\<lambda>k. req_data_of (by_request (fst st')) k c"
  have both: "distinct ?keys' \<and> totals (fst st') c = sum_list (map ?g ?keys')"
  proof (cases "snapshot entry")
    case None
    from process_entry_s_effect(3)[OF a] None have k: "?keys' = ?keys" by simp
    from process_entry_s_effect(2)[OF a, of c] None have t: "totals (fst st') c = totals (fst st) c"
      by simp
    have "?g k = ?f k" for k using process_entry_s_effect(1)[OF a, of k c] None by simp
    then have "sum_list (map ?g ?keys) = sum_list (map ?f ?keys)" by (rule sum_list_same)
    with k t inv dist show ?thesis by simp
  next
    case (Some p)
    obtain rid usage where p: "p = (rid, usage)" by (cases p)
    with Some have sn: "snapshot entry = Some (rid, usage)" by simp
    from process_entry_s_effect(4)[OF a sn] obtain k0 where k0: "py_hash rid = Some k0" by auto
    from process_entry_s_effect(3)[OF a] sn k0
    have k: "?keys' = (if k0 \<in> set ?keys then ?keys else ?keys @ [k0])" by simp
    from process_entry_s_effect(2)[OF a, of c] sn k0
    have t: "totals (fst st') c = totals (fst st) c + (?g k0 - ?f k0)" by simp
    have other: "?g y = ?f y" if "y \<noteq> k0" for y
      using process_entry_s_effect(1)[OF a, of y c] sn k0 that by auto
    show ?thesis
    proof (cases "k0 \<in> set ?keys")
      case True
      with k have kk: "?keys' = ?keys" by simp
      have "sum_list (map ?g ?keys) = sum_list (map ?f ?keys) + (?g k0 - ?f k0)"
        by (rule sum_list_change_one[where g = ?g and f = ?f, OF dist True other])
      with kk t inv dist show ?thesis by simp
    next
      case False
      with k have kk: "?keys' = ?keys @ [k0]" by simp
      have "?g y = ?f y" if "y \<in> set ?keys" for y using other[of y] that False by blast
      then have same: "sum_list (map ?g ?keys) = sum_list (map ?f ?keys)" by (rule sum_list_same)
      from False have zero: "?f k0 = 0" by (rule req_data_of_absent)
      from kk have d': "distinct ?keys'" using dist False by simp
      from kk have "sum_list (map ?g ?keys') = sum_list (map ?g ?keys) + ?g k0" by simp
      with same t inv zero have "totals (fst st') c = sum_list (map ?g ?keys')" by simp
      with d' show ?thesis by simp
    qed
  qed
  from both show "distinct ?keys'" by simp
  from both show "totals (fst st') c = sum_list (map ?g ?keys')" by simp
qed

lemma scan_s_sum:
  assumes "scan_s es st = Some st'"
    and "distinct (map fst (by_request (fst st)))"
    and "totals (fst st) c =
         sum_list (map (\<lambda>k. req_data_of (by_request (fst st)) k c) (map fst (by_request (fst st))))"
  shows "distinct (map fst (by_request (fst st'))) \<and>
         totals (fst st') c =
         sum_list (map (\<lambda>k. req_data_of (by_request (fst st')) k c) (map fst (by_request (fst st'))))"
  using assms
proof (induction es arbitrary: st)
  case Nil
  then show ?case by simp
next
  case (Cons e es)
  from Cons.prems(1) obtain st1 where 1: "process_entry_s e st = Some st1" "scan_s es st1 = Some st'"
    by (auto split: Option.bind_splits)
  from process_entry_s_sum[OF 1(1) Cons.prems(2) Cons.prems(3)]
  have "distinct (map fst (by_request (fst st1)))"
    and "totals (fst st1) c =
         sum_list (map (\<lambda>k. req_data_of (by_request (fst st1)) k c) (map fst (by_request (fst st1))))"
    by blast+
  with Cons.IH[OF 1(2)] show ?case by blast
qed

lemma analyze_s_sum:
  assumes "analyze_s es = Some r"
  shows "distinct (map fst (by_request r))"
    and "totals r c = sum_list (map (\<lambda>k. req_data_of (by_request r) k c) (map fst (by_request r)))"
proof -
  from assms obtain st' where s: "scan_s es (init_result_s (length es), {}) = Some st'" "r = fst st'"
    by (auto simp: analyze_s_def split: Option.bind_splits)
  have i1: "distinct (map fst (by_request (fst (init_result_s (length es), {}::key set))))"
    by (simp add: init_result_s_def)
  have i2: "totals (fst (init_result_s (length es), {}::key set)) c =
     sum_list (map (\<lambda>k. req_data_of (by_request (fst (init_result_s (length es), {}::key set))) k c)
       (map fst (by_request (fst (init_result_s (length es), {}::key set)))))"
    by (simp add: init_result_s_def)
  from scan_s_sum[OF s(1) i1 i2] s(2)
  show "distinct (map fst (by_request r))"
    and "totals r c = sum_list (map (\<lambda>k. req_data_of (by_request r) k c) (map fst (by_request r)))"
    by simp_all
qed


text \<open>The request ids the hook analyzer stores are those of the session analyzer that
  pass the truth test, in the same order.\<close>

lemma process_entry_keys:
  assumes s: "process_entry_s entry st = Some st'" and h: "process_entry_h entry sh = Some sh'"
    and rel: "map fst (snd sh) = filter key_truthy (map fst (by_request (fst st)))"
  shows "map fst (snd sh') = filter key_truthy (map fst (by_request (fst st')))"
proof (cases "snapshot entry")
  case None
  from process_entry_s_effect(3)[OF s] None
  have "map fst (by_request (fst st')) = map fst (by_request (fst st))" by simp
  moreover from process_entry_h_effect(2)[OF h] None have "map fst (snd sh') = map fst (snd sh)"
    by simp
  ultimately show ?thesis using rel by simp
next
  case (Some p)
  obtain rid usage where p: "p = (rid, usage)" by (cases p)
  with Some have sn: "snapshot entry = Some (rid, usage)" by simp
  from process_entry_s_effect(4)[OF s sn] obtain k0 where k0: "py_hash rid = Some k0" by auto
  from py_hash_truthy[OF k0] have tr: "truthy rid = key_truthy k0" .
  from process_entry_s_effect(3)[OF s] sn k0
  have ks: "map fst (by_request (fst st')) =
      (if k0 \<in> set (map fst (by_request (fst st))) then map fst (by_request (fst st))
       else map fst (by_request (fst st)) @ [k0])" by simp
  from process_entry_h_effect(2)[OF h] sn k0 tr
  have kh: "map fst (snd sh') =
      (if key_truthy k0 \<and> k0 \<notin> set (map fst (snd sh)) then map fst (snd sh) @ [k0]
       else map fst (snd sh))" by simp
  have mem: "k0 \<in> set (map fst (snd sh)) \<longleftrightarrow>
             key_truthy k0 \<and> k0 \<in> set (map fst (by_request (fst st)))"
    unfolding rel by auto
  show ?thesis unfolding ks kh mem using rel by simp
qed

lemma scan_keys:
  assumes "scan_s es st = Some st'" and "scan_h es sh = Some sh'"
    and "map fst (snd sh) = filter key_truthy (map fst (by_request (fst st)))"
  shows "map fst (snd sh') = filter key_truthy (map fst (by_request (fst st')))"
  using assms
proof (induction es arbitrary: st sh)
  case Nil
  then show ?case by simp
next
  case (Cons e es)
  from Cons.prems(1) obtain st1 where 1: "process_entry_s e st = Some st1" "scan_s es st1 = Some st'"
    by (auto split: Option.bind_splits)
  from Cons.prems(2) obtain sh1 where 2: "process_entry_h e sh = Some sh1" "scan_h es sh1 = Some sh'"
    by (auto split: Option.bind_splits)
  from process_entry_keys[OF 1(1) 2(1) Cons.prems(3)]
  have "map fst (snd sh1) = filter key_truthy (map fst (by_request (fst st1)))" .
  from Cons.IH[OF 1(2) 2(2) this] show ?case .
qed

lemma current_of_member:
  assumes "distinct (map fst al)" and "p \<in> set al"
  shows "current_of al (fst p) m = snd p"
proof -
  from assms have "map_of al (fst p) = Some (snd p)" by (cases p) simp
  then show ?thesis by (rule current_of_stored)
qed

lemma reconciled_sum_by_key:
  assumes "distinct (map fst seen)"
  shows "reconciled_sum c seen =
         sum_list (map (\<lambda>k. counter_h c (current_of seen k m)) (map fst seen))"
proof -
  have "counter_h c (snd p) = counter_h c (current_of seen (fst p) m)" if "p \<in> set seen" for p
    using current_of_member[OF assms that, of m] by simp
  then have "sum_list (map (\<lambda>p. counter_h c (snd p)) seen) =
             sum_list (map (\<lambda>p. counter_h c (current_of seen (fst p) m)) seen)"
    by (rule sum_list_same)
  then show ?thesis by (simp add: reconciled_sum_def comp_def)
qed

lemma falsy_sum:
  fixes f :: "key \<Rightarrow> int"
  assumes dist: "distinct keys" and zero: "\<And>k. k \<notin> set keys \<Longrightarrow> f k = 0"
  shows "sum_list (map f (filter (\<lambda>k. \<not> key_truthy k) keys)) = sum_list (map f falsy_keys)"
proof -
  let ?S = "set (filter (\<lambda>k. \<not> key_truthy k) keys)"
  have d1: "distinct (filter (\<lambda>k. \<not> key_truthy k) keys)" using dist by simp
  have d2: "distinct falsy_keys" by (simp add: falsy_keys_def)
  have sub: "?S \<subseteq> set falsy_keys" by (auto simp: not_key_truthy_iff)
  have out: "\<forall>k \<in> set falsy_keys - ?S. f k = 0"
  proof
    fix k assume "k \<in> set falsy_keys - ?S"
    then have "k \<notin> set keys" by (auto simp: not_key_truthy_iff)
    then show "f k = 0" by (rule zero)
  qed
  have "sum f ?S = sum f (set falsy_keys)"
    by (rule sum.mono_neutral_left) (use sub out in simp_all)
  moreover have "sum_list (map f (filter (\<lambda>k. \<not> key_truthy k) keys)) = sum f ?S"
    using d1 by (rule sum_list_distinct_conv_sum_set)
  moreover have "sum_list (map f falsy_keys) = sum f (set falsy_keys)"
    using d2 by (rule sum_list_distinct_conv_sum_set)
  ultimately show ?thesis by simp
qed

lemma snapshots_of_falsy:
  assumes "\<forall>s \<in> set (snapshots es). truthy (fst s)" and "\<not> key_truthy k"
  shows "snapshots_of k es = []"
proof -
  have "py_hash (fst s) \<noteq> Some k" if "s \<in> set (snapshots es)" for s
  proof
    assume "py_hash (fst s) = Some k"
    from py_hash_truthy[OF this] assms that show False by blast
  qed
  then have "filter (\<lambda>s. py_hash (fst s) = Some k) (snapshots es) = []"
    by (simp add: filter_empty_conv)
  then show ?thesis by (simp add: snapshots_of_def)
qed


lemma stored_sum_by_key:
  assumes "distinct (map fst al)"
  shows "sum_list (map (\<lambda>p. snd p c) al) =
         sum_list (map (\<lambda>k. req_data_of al k c) (map fst al))"
proof -
  have "snd p c = req_data_of al (fst p) c" if "p \<in> set al" for p
  proof -
    from assms that have "map_of al (fst p) = Some (snd p)" by (cases p) simp
    then show ?thesis by (simp add: req_data_of_def)
  qed
  then have "sum_list (map (\<lambda>p. snd p c) al) = sum_list (map (\<lambda>p. req_data_of al (fst p) c) al)"
    by (rule sum_list_same)
  then show ?thesis by (simp add: comp_def)
qed

lemma totals_split:
  assumes s: "analyze_s es = Some rs" and h: "reconcile_h es = Some (rh, seen)"
    and c: "c \<in> set usage_keys"
  shows "totals rs c = sum_list (map (\<lambda>p. snd p c) (by_request rs))"
    and "totals rs c =
         reconciled_sum c seen + sum_list (map (\<lambda>k. req_data_of (by_request rs) k c) falsy_keys)"
proof -
  let ?keys = "map fst (by_request rs)"
  let ?f = "\<lambda>k. req_data_of (by_request rs) k c"
  note dist = analyze_s_sum(1)[OF s]
  note tot = analyze_s_sum(2)[OF s, of c]
  from tot stored_sum_by_key[OF dist, of c]
  show "totals rs c = sum_list (map (\<lambda>p. snd p c) (by_request rs))" by simp
  from s obtain st' where ss: "scan_s es (init_result_s (length es), {}) = Some st'" "rs = fst st'"
    by (auto simp: analyze_s_def split: Option.bind_splits)
  from h have hh: "scan_h es (init_result_h (length es), []) = Some (rh, seen)"
    by (simp add: reconcile_h_def)
  have init: "map fst (snd (init_result_h (length es), [] :: (key \<times> call_data) list)) =
      filter key_truthy (map fst (by_request (fst (init_result_s (length es), {} :: key set))))"
    by (simp add: init_result_s_def)
  from scan_keys[OF ss(1) hh init] ss(2)
  have keys: "map fst seen = filter key_truthy ?keys" by simp
  then have dh: "distinct (map fst seen)" using dist by simp
  have part: "sum_list (map ?f ?keys) =
      sum_list (map ?f (filter key_truthy ?keys)) +
      sum_list (map ?f (filter (\<lambda>k. \<not> key_truthy k) ?keys))"
    by (rule sum_list_partition)
  have agree: "?f k = counter_h c (current_of seen k JNull)" if "k \<in> set (map fst seen)" for k
  proof -
    from that keys have kt: "key_truthy k" by simp
    from analyze_s_running_max[OF s c, of k] reconcile_h_running_max[OF h c kt, of JNull]
    show ?thesis by simp
  qed
  then have "sum_list (map ?f (map fst seen)) =
      sum_list (map (\<lambda>k. counter_h c (current_of seen k JNull)) (map fst seen))"
    by (rule sum_list_same)
  with reconciled_sum_by_key[OF dh, of c JNull] keys
  have first: "sum_list (map ?f (filter key_truthy ?keys)) = reconciled_sum c seen" by simp
  have second: "sum_list (map ?f (filter (\<lambda>k. \<not> key_truthy k) ?keys)) = sum_list (map ?f falsy_keys)"
    using dist by (rule falsy_sum) (rule req_data_of_absent)
  from tot part first second
  show "totals rs c = reconciled_sum c seen + sum_list (map ?f falsy_keys)" by simp
qed

lemma totals_agree:
  assumes s: "analyze_s es = Some rs" and h: "reconcile_h es = Some (rh, seen)"
    and c: "c \<in> set usage_keys" and all: "\<forall>s \<in> set (snapshots es). truthy (fst s)"
  shows "totals rs c = reconciled_sum c seen"
proof -
  have "req_data_of (by_request rs) k c = 0" if "k \<in> set falsy_keys" for k
  proof -
    from that have "\<not> key_truthy k" by (simp add: not_key_truthy_iff)
    from snapshots_of_falsy[OF all this] analyze_s_running_max[OF s c, of k]
    show ?thesis by (simp add: running_max_def)
  qed
  then have "sum_list (map (\<lambda>k. req_data_of (by_request rs) k c) falsy_keys) =
             sum_list (map (\<lambda>k. 0::int) falsy_keys)"
    by (rule sum_list_same)
  with totals_split(2)[OF s h c] show ?thesis by simp
qed


text \<open>
  Claim C2, as amended. For every log that both analyzers process, and each of the four
  counters (input, output, cache creation and cache read tokens): the session analyzer's
  running total (built from deltas) is the sum of the values it stores per request id,
  and it equals the sum of the hook analyzer's stored maxima over its distinct request
  ids plus what the session analyzer stores under the request ids that fail the truth
  test, which the hook analyzer skips. When every usage snapshot of the log has a request
  id that passes the truth test, the two are equal.
\<close>

theorem totals_agree_up_to_skipped_ids:
  "analyze_s es = Some rs \<and> reconcile_h es = Some (rh, seen) \<longrightarrow>
     (\<forall>(c, field) \<in> {(''input_tokens'', c_input_tokens), (''output_tokens'', c_output_tokens),
                      (''cache_creation_input_tokens'', c_cache_creation),
                      (''cache_read_input_tokens'', c_cache_read)}.
        totals rs c = sum_list (map (\<lambda>p. snd p c) (by_request rs)) \<and>
        totals rs c =
          sum_list (map (field \<circ> snd) seen) +
          sum_list (map (\<lambda>k. req_data_of (by_request rs) k c) falsy_keys) \<and>
        ((\<forall>s \<in> set (snapshots es). truthy (fst s)) \<longrightarrow>
           totals rs c = sum_list (map (field \<circ> snd) seen)))"
proof
  assume a: "analyze_s es = Some rs \<and> reconcile_h es = Some (rh, seen)"
  then have s: "analyze_s es = Some rs" and h: "reconcile_h es = Some (rh, seen)" by simp_all
  have main: "totals rs c = sum_list (map (\<lambda>p. snd p c) (by_request rs)) \<and>
        totals rs c =
          sum_list (map (counter_h c \<circ> snd) seen) +
          sum_list (map (\<lambda>k. req_data_of (by_request rs) k c) falsy_keys) \<and>
        ((\<forall>s \<in> set (snapshots es). truthy (fst s)) \<longrightarrow>
           totals rs c = sum_list (map (counter_h c \<circ> snd) seen))"
    if c: "c \<in> set usage_keys" for c
  proof -
    note 1 = totals_split(1)[OF s h c]
    note 2 = totals_split(2)[OF s h c, unfolded reconciled_sum_def]
    have 3: "(\<forall>s \<in> set (snapshots es). truthy (fst s)) \<longrightarrow>
           totals rs c = sum_list (map (counter_h c \<circ> snd) seen)"
    proof
      assume "\<forall>s \<in> set (snapshots es). truthy (fst s)"
      from totals_agree[OF s h c this]
      show "totals rs c = sum_list (map (counter_h c \<circ> snd) seen)"
        unfolding reconciled_sum_def .
    qed
    from 1 2 3 show ?thesis by (intro conjI)
  qed
  have f: "counter_h ''input_tokens'' = c_input_tokens"
    "counter_h ''output_tokens'' = c_output_tokens"
    "counter_h ''cache_creation_input_tokens'' = c_cache_creation"
    "counter_h ''cache_read_input_tokens'' = c_cache_read"
    by (rule ext, simp add: counter_h_def)+
  note m = main[OF usage_keys_mem(1), unfolded f] main[OF usage_keys_mem(2), unfolded f]
    main[OF usage_keys_mem(3), unfolded f] main[OF usage_keys_mem(4), unfolded f]
  show "\<forall>(c, field) \<in> {(''input_tokens'', c_input_tokens), (''output_tokens'', c_output_tokens),
                      (''cache_creation_input_tokens'', c_cache_creation),
                      (''cache_read_input_tokens'', c_cache_read)}.
        totals rs c = sum_list (map (\<lambda>p. snd p c) (by_request rs)) \<and>
        totals rs c =
          sum_list (map (field \<circ> snd) seen) +
          sum_list (map (\<lambda>k. req_data_of (by_request rs) k c) falsy_keys) \<and>
        ((\<forall>s \<in> set (snapshots es). truthy (fst s)) \<longrightarrow>
           totals rs c = sum_list (map (field \<circ> snd) seen))"
  proof (intro ballI)
    fix x :: "string \<times> (call_data \<Rightarrow> int)"
    assume "x \<in> {(''input_tokens'', c_input_tokens), (''output_tokens'', c_output_tokens),
                      (''cache_creation_input_tokens'', c_cache_creation),
                      (''cache_read_input_tokens'', c_cache_read)}"
    then consider (1) "x = (''input_tokens'', c_input_tokens)"
      | (2) "x = (''output_tokens'', c_output_tokens)"
      | (3) "x = (''cache_creation_input_tokens'', c_cache_creation)"
      | (4) "x = (''cache_read_input_tokens'', c_cache_read)"
      by (elim insertE emptyE)
    then show "case x of (c, field) \<Rightarrow>
        totals rs c = sum_list (map (\<lambda>p. snd p c) (by_request rs)) \<and>
        totals rs c =
          sum_list (map (field \<circ> snd) seen) +
          sum_list (map (\<lambda>k. req_data_of (by_request rs) k c) falsy_keys) \<and>
        ((\<forall>s \<in> set (snapshots es). truthy (fst s)) \<longrightarrow>
           totals rs c = sum_list (map (field \<circ> snd) seen))"
    proof cases
      case 1 show ?thesis unfolding 1 prod.case by (rule m(1))
    next
      case 2 show ?thesis unfolding 2 prod.case by (rule m(2))
    next
      case 3 show ?thesis unfolding 3 prod.case by (rule m(3))
    next
      case 4 show ?thesis unfolding 4 prod.case by (rule m(4))
    qed
  qed
qed

theorem totals_agree_up_to_skipped_ids_witness:
  "list_all (truthy \<circ> fst) (snapshots mixed_log) \<and>
   map_option (\<lambda>rs. map (totals rs)
       [''input_tokens'', ''output_tokens'', ''cache_creation_input_tokens'',
        ''cache_read_input_tokens'']) (analyze_s mixed_log) = Some [14, 27, 34, 47] \<and>
   map_option (\<lambda>st. [sum_list (map (c_input_tokens \<circ> snd) (snd st)),
                      sum_list (map (c_output_tokens \<circ> snd) (snd st)),
                      sum_list (map (c_cache_creation \<circ> snd) (snd st)),
                      sum_list (map (c_cache_read \<circ> snd) (snd st))])
     (reconcile_h mixed_log) = Some [14, 27, 34, 47]"
proof -
  have la: "list_all (truthy \<circ> fst) (snapshots mixed_log)" by code_simp
  then have all: "\<forall>s \<in> set (snapshots mixed_log). truthy (fst s)"
    by (simp add: list_all_iff)
  have "analyze_s mixed_log \<noteq> None" by code_simp
  then obtain rs where s: "analyze_s mixed_log = Some rs" by auto
  have hv: "map_option (\<lambda>st. [sum_list (map (c_input_tokens \<circ> snd) (snd st)),
                      sum_list (map (c_output_tokens \<circ> snd) (snd st)),
                      sum_list (map (c_cache_creation \<circ> snd) (snd st)),
                      sum_list (map (c_cache_read \<circ> snd) (snd st))])
     (reconcile_h mixed_log) = Some [14, 27, 34, 47]"
    by code_simp
  then obtain rh seen where h: "reconcile_h mixed_log = Some (rh, seen)"
    by (cases "reconcile_h mixed_log") auto
  with hv have v: "sum_list (map (c_input_tokens \<circ> snd) seen) = 14"
    "sum_list (map (c_output_tokens \<circ> snd) seen) = 27"
    "sum_list (map (c_cache_creation \<circ> snd) seen) = 34"
    "sum_list (map (c_cache_read \<circ> snd) seen) = 47" by simp_all
  have a: "analyze_s mixed_log = Some rs \<and> reconcile_h mixed_log = Some (rh, seen)"
    using s h by (intro conjI)
  note t = totals_agree_up_to_skipped_ids [where es = mixed_log and rs = rs and rh = rh
      and seen = seen, THEN mp, OF a]
  have 1: "totals rs ''input_tokens'' = 14"
    using t[THEN bspec, of "(''input_tokens'', c_input_tokens)"] all v(1) by simp
  have 2: "totals rs ''output_tokens'' = 27"
    using t[THEN bspec, of "(''output_tokens'', c_output_tokens)"] all v(2) by simp
  have 3: "totals rs ''cache_creation_input_tokens'' = 34"
    using t[THEN bspec, of "(''cache_creation_input_tokens'', c_cache_creation)"] all v(3) by simp
  have 4: "totals rs ''cache_read_input_tokens'' = 47"
    using t[THEN bspec, of "(''cache_read_input_tokens'', c_cache_read)"] all v(4) by simp
  from 1 2 3 4 s have "map_option (\<lambda>rs. map (totals rs)
       [''input_tokens'', ''output_tokens'', ''cache_creation_input_tokens'',
        ''cache_read_input_tokens'']) (analyze_s mixed_log) = Some [14, 27, 34, 47]" by simp
  with la hv show ?thesis by (intro conjI)
qed

text \<open>
  The claim as stated fails on a log with one assistant record that carries usage but
  no request id: the session analyzer's input total is 5, and the hook analyzer's sum
  over its reconciled calls is 0.
\<close>

theorem session_counts_snapshot_the_hook_analyzer_skips:
  "map_option (\<lambda>rs. totals rs ''input_tokens'') (analyze_s [anonymous_snapshot]) = Some 5 \<and>
   map_option (\<lambda>st. sum_list (map (c_input_tokens \<circ> snd) (snd st)))
     (reconcile_h [anonymous_snapshot]) = Some 0"
  by code_simp

section \<open>Snapshots without a request id\<close>

lemma process_entry_h_falsy:
  assumes h: "process_entry_h entry sh = Some sh'" and sn: "snapshot entry = Some (rid, usage)"
    and f: "\<not> truthy rid"
  shows "snd sh' = snd sh" and "main_agent (fst sh') = main_agent (fst sh)"
    and "hooks_prompt (fst sh') = hooks_prompt (fst sh)"
proof -
  from process_entry_h_snapshot[OF h] sn obtain model where
    "track_usage_h rid model usage (snd sh) = Some (snd sh')" by auto
  with f show "snd sh' = snd sh" by (simp add: track_usage_h_def)
  from process_entry_h_frame[OF h]
  show "main_agent (fst sh') = main_agent (fst sh)"
    and "hooks_prompt (fst sh') = hooks_prompt (fst sh)" by simp_all
qed

lemma process_entry_s_falsy:
  assumes s: "process_entry_s entry st = Some st'" and sn: "snapshot entry = Some (rid, usage)"
    and f: "\<not> truthy rid"
  shows "\<exists>k. py_hash rid = Some k \<and> k \<in> set falsy_keys \<and>
           (\<forall>c \<in> set usage_keys.
              req_data_of (by_request (fst st')) k c =
                max (req_data_of (by_request (fst st)) k c) (reported usage c) \<and>
              totals (fst st') c =
                totals (fst st) c +
                (req_data_of (by_request (fst st')) k c - req_data_of (by_request (fst st)) k c))"
proof -
  from process_entry_s_effect(4)[OF s sn] obtain k where k: "py_hash rid = Some k" by auto
  from py_hash_truthy[OF k] f have kf: "k \<in> set falsy_keys" by (simp add: not_key_truthy_iff)
  have "req_data_of (by_request (fst st')) k c =
          max (req_data_of (by_request (fst st)) k c) (reported usage c) \<and>
        totals (fst st') c =
          totals (fst st) c +
          (req_data_of (by_request (fst st')) k c - req_data_of (by_request (fst st)) k c)"
    if "c \<in> set usage_keys" for c
    using process_entry_s_effect(1)[OF s, of k c] process_entry_s_effect(2)[OF s, of c] sn k that
    by simp
  with k kf show ?thesis by blast
qed

text \<open>
  Claim C3, as amended. For an assistant record whose usage snapshot has an empty
  request id (or any id that fails the truth test), the session analyzer folds the
  snapshot into the entry it keeps under that id: each of the four counters (input, output,
  cache creation and cache read tokens) becomes the maximum of
  the stored and the reported value and the running total grows by the increase, so
  such snapshots are deduplicated against one another. The hook analyzer does not record
  the snapshot: its reconciled calls and its category totals stay as they are.
\<close>

theorem empty_id_snapshot_folded_or_skipped:
  "(process_entry_s entry st = Some st' \<and> snapshot entry = Some (rid, usage) \<and> \<not> truthy rid \<longrightarrow>
      (\<exists>k. py_hash rid = Some k \<and> k \<in> set falsy_keys \<and>
           (\<forall>c \<in> {''input_tokens'', ''output_tokens'',
                  ''cache_creation_input_tokens'', ''cache_read_input_tokens''}.
              req_data_of (by_request (fst st')) k c =
                max (req_data_of (by_request (fst st)) k c) (reported usage c) \<and>
              totals (fst st') c =
                totals (fst st) c +
                (req_data_of (by_request (fst st')) k c -
                 req_data_of (by_request (fst st)) k c)))) \<and>
   (process_entry_h entry sh = Some sh' \<and> snapshot entry = Some (rid, usage) \<and> \<not> truthy rid \<longrightarrow>
      snd sh' = snd sh \<and> main_agent (fst sh') = main_agent (fst sh) \<and>
      hooks_prompt (fst sh') = hooks_prompt (fst sh))"
proof (rule conjI)
  show "process_entry_s entry st = Some st' \<and> snapshot entry = Some (rid, usage) \<and> \<not> truthy rid \<longrightarrow>
      (\<exists>k. py_hash rid = Some k \<and> k \<in> set falsy_keys \<and>
           (\<forall>c \<in> {''input_tokens'', ''output_tokens'',
                  ''cache_creation_input_tokens'', ''cache_read_input_tokens''}.
              req_data_of (by_request (fst st')) k c =
                max (req_data_of (by_request (fst st)) k c) (reported usage c) \<and>
              totals (fst st') c =
                totals (fst st) c +
                (req_data_of (by_request (fst st')) k c -
                 req_data_of (by_request (fst st)) k c)))"
  proof
    assume "process_entry_s entry st = Some st' \<and> snapshot entry = Some (rid, usage) \<and> \<not> truthy rid"
    then have "process_entry_s entry st = Some st'" "snapshot entry = Some (rid, usage)"
      "\<not> truthy rid" by simp_all
    then show "\<exists>k. py_hash rid = Some k \<and> k \<in> set falsy_keys \<and>
           (\<forall>c \<in> {''input_tokens'', ''output_tokens'',
                  ''cache_creation_input_tokens'', ''cache_read_input_tokens''}.
              req_data_of (by_request (fst st')) k c =
                max (req_data_of (by_request (fst st)) k c) (reported usage c) \<and>
              totals (fst st') c =
                totals (fst st) c +
                (req_data_of (by_request (fst st')) k c -
                 req_data_of (by_request (fst st)) k c))"
      using process_entry_s_falsy[of entry st st' rid usage] counter_name_cases by blast
  qed
  show "process_entry_h entry sh = Some sh' \<and> snapshot entry = Some (rid, usage) \<and> \<not> truthy rid \<longrightarrow>
      snd sh' = snd sh \<and> main_agent (fst sh') = main_agent (fst sh) \<and>
      hooks_prompt (fst sh') = hooks_prompt (fst sh)"
  proof
    assume "process_entry_h entry sh = Some sh' \<and> snapshot entry = Some (rid, usage) \<and> \<not> truthy rid"
    then have a: "process_entry_h entry sh = Some sh'" "snapshot entry = Some (rid, usage)"
      "\<not> truthy rid" by simp_all
    from process_entry_h_falsy[OF a]
    show "snd sh' = snd sh \<and> main_agent (fst sh') = main_agent (fst sh) \<and>
      hooks_prompt (fst sh') = hooks_prompt (fst sh)" by (intro conjI)
  qed
qed

theorem empty_id_snapshot_folded_or_skipped_witness:
  "snapshot anonymous_all_snapshot = Some (JStr [], JObj (usage_of 3 4 7 9)) \<and>
   \<not> truthy (JStr []) \<and>
   (case process_entry_s anonymous_all_snapshot anonymous_all_state_s of
      None \<Rightarrow> False
    | Some st' \<Rightarrow>
        map (req_data_of (by_request (fst st')) (KStr []))
          [''input_tokens'', ''output_tokens'', ''cache_creation_input_tokens'',
           ''cache_read_input_tokens''] = [5, 4, 7, 9] \<and>
        map (totals (fst st'))
          [''input_tokens'', ''output_tokens'', ''cache_creation_input_tokens'',
           ''cache_read_input_tokens''] = [5, 4, 7, 9]) \<and>
   (case process_entry_h anonymous_all_snapshot (init_result_h 2, []) of
      None \<Rightarrow> False
    | Some sh' \<Rightarrow> snd sh' = [])"
proof -
  have sn: "snapshot anonymous_all_snapshot = Some (JStr [], JObj (usage_of 3 4 7 9))"
    by (simp add: snapshot_def anonymous_all_snapshot_def anonymous_entry_def get_def usage_of_def)
  have f: "\<not> truthy (JStr [])" by simp
  have "process_entry_s anonymous_all_snapshot anonymous_all_state_s \<noteq> None" by code_simp
  then obtain st' where s: "process_entry_s anonymous_all_snapshot anonymous_all_state_s = Some st'"
    by auto
  have "process_entry_h anonymous_all_snapshot (init_result_h 2, []) \<noteq> None" by code_simp
  then obtain sh' where h: "process_entry_h anonymous_all_snapshot (init_result_h 2, []) = Some sh'"
    by auto
  note t = empty_id_snapshot_folded_or_skipped
    [where entry = anonymous_all_snapshot and st = anonymous_all_state_s and st' = st'
       and sh = "(init_result_h 2, [])" and sh' = sh' and rid = "JStr []"
       and usage = "JObj (usage_of 3 4 7 9)"]
  have as: "process_entry_s anonymous_all_snapshot anonymous_all_state_s = Some st' \<and>
      snapshot anonymous_all_snapshot = Some (JStr [], JObj (usage_of 3 4 7 9)) \<and>
      \<not> truthy (JStr [])" using s sn f by (intro conjI)
  have ah: "process_entry_h anonymous_all_snapshot (init_result_h 2, []) = Some sh' \<and>
      snapshot anonymous_all_snapshot = Some (JStr [], JObj (usage_of 3 4 7 9)) \<and>
      \<not> truthy (JStr [])" using h sn f by (intro conjI)
  from t[THEN conjunct1, THEN mp, OF as] obtain k where k: "py_hash (JStr []) = Some k"
    and eff: "\<forall>c \<in> {''input_tokens'', ''output_tokens'',
                  ''cache_creation_input_tokens'', ''cache_read_input_tokens''}.
              req_data_of (by_request (fst st')) k c =
                max (req_data_of (by_request (fst anonymous_all_state_s)) k c)
                    (reported (JObj (usage_of 3 4 7 9)) c) \<and>
              totals (fst st') c =
                totals (fst anonymous_all_state_s) c +
                (req_data_of (by_request (fst st')) k c -
                 req_data_of (by_request (fst anonymous_all_state_s)) k c)"
    by (elim exE conjE)
  from k have kk: "k = KStr []" by simp
  have old: "map (req_data_of (by_request (fst anonymous_all_state_s)) (KStr []))
      [''input_tokens'', ''output_tokens'', ''cache_creation_input_tokens'',
       ''cache_read_input_tokens''] = [5, 1, 7, 2]"
    by (simp add: anonymous_all_state_s_def req_data_of_def)
  have oldt: "map (totals (fst anonymous_all_state_s))
      [''input_tokens'', ''output_tokens'', ''cache_creation_input_tokens'',
       ''cache_read_input_tokens''] = [5, 1, 7, 2]"
    by (simp add: anonymous_all_state_s_def)
  have rep: "map (reported (JObj (usage_of 3 4 7 9)))
      [''input_tokens'', ''output_tokens'', ''cache_creation_input_tokens'',
       ''cache_read_input_tokens''] = [3, 4, 7, 9]"
    by (simp add: reported_def get_def usage_of_def)
  from eff[THEN bspec, of "''input_tokens''"] eff[THEN bspec, of "''output_tokens''"]
    eff[THEN bspec, of "''cache_creation_input_tokens''"]
    eff[THEN bspec, of "''cache_read_input_tokens''"] kk old oldt rep
  have 1: "map (req_data_of (by_request (fst st')) (KStr []))
          [''input_tokens'', ''output_tokens'', ''cache_creation_input_tokens'',
           ''cache_read_input_tokens''] = [5, 4, 7, 9] \<and>
        map (totals (fst st'))
          [''input_tokens'', ''output_tokens'', ''cache_creation_input_tokens'',
           ''cache_read_input_tokens''] = [5, 4, 7, 9]" by simp
  from t[THEN conjunct2, THEN mp, OF ah] have 2: "snd sh' = []" by simp
  from sn f s h 1 2 show ?thesis by simp
qed

text \<open>
  The claim as stated fails on two records without a request id that each report 5
  input tokens: the session analyzer's input total is 5, not 10, and the hook analyzer
  records neither.
\<close>

theorem two_empty_id_snapshots_count_once:
  "map_option (\<lambda>rs. totals rs ''input_tokens'') (analyze_s anonymous_log) = Some 5 \<and>
   map_option snd (reconcile_h anonymous_log) = Some [] \<and>
   map_option (m_input_tokens \<circ> main_agent) (analyze_h anonymous_log) = Some 0"
  by code_simp


end
